theory Spec2Isabelle
  imports Complex_Main "HOL-Library.Sublist"
begin

section \<open>JavaScript string primitives\<close>

text \<open>
  A string is the list of its code units. The embedding covers code units 0..255
  (the Latin-1 range), which is what \<^typ>\<open>char\<close> holds. On that range the class
  \<open>\s\<close> of a JavaScript regular expression (and the set removed by \<open>trim\<close>) is
  TAB, LF, VT, FF, CR, SPACE and NBSP, and \<open>\w\<close> is \<open>[A-Za-z0-9_]\<close>.
\<close>

definition is_space :: "char \<Rightarrow> bool" where
  "is_space c = (c = CHR 0x09 \<or> c = CHR 0x0A \<or> c = CHR 0x0B \<or> c = CHR 0x0C \<or>
                 c = CHR 0x0D \<or> c = CHR 0x20 \<or> c = CHR 0xA0)"

definition is_word_char :: "char \<Rightarrow> bool" where
  "is_word_char c = (let n = (of_char c :: nat) in
     (48 \<le> n \<and> n \<le> 57) \<or> (65 \<le> n \<and> n \<le> 90) \<or> n = 95 \<or> (97 \<le> n \<and> n \<le> 122))"

text \<open>\<open>String.prototype.trim\<close>.\<close>

definition trim :: "string \<Rightarrow> string" where
  "trim s = rev (dropWhile is_space (rev (dropWhile is_space s)))"

text \<open>\<open>String.prototype.toLowerCase\<close> on Latin-1: A-Z and the accented capitals
  0xC0..0xDE (without the multiplication sign 0xD7) move up by 32.\<close>

definition toLowerCase_char :: "char \<Rightarrow> char" where
  "toLowerCase_char c = (let n = (of_char c :: nat) in
     if (65 \<le> n \<and> n \<le> 90) \<or> (192 \<le> n \<and> n \<le> 222 \<and> n \<noteq> 215)
     then char_of (n + 32) else c)"

definition toLowerCase :: "string \<Rightarrow> string" where
  "toLowerCase s = map toLowerCase_char s"

text \<open>\<open>s.split(sep)\<close> for a one-character separator: the empty string gives one empty
  piece, and a separator at either end gives an empty piece there.\<close>

fun split_char :: "char \<Rightarrow> string \<Rightarrow> string list" where
  "split_char sep [] = [[]]"
| "split_char sep (c # cs) =
     (if c = sep then [] # split_char sep cs
      else (case split_char sep cs of
              [] \<Rightarrow> [[c]]
            | w # ws \<Rightarrow> (c # w) # ws))"

text \<open>\<open>s.split(/\s+/)\<close>: pieces between maximal runs of whitespace; leading or trailing
  whitespace gives an empty first or last piece, the empty string gives \<open>[""]\<close>.\<close>

function split_ws :: "string \<Rightarrow> string list" where
  "split_ws [] = [[]]"
| "split_ws (c # cs) =
     (if is_space c then [] # split_ws (dropWhile is_space cs)
      else (case split_ws cs of
              [] \<Rightarrow> [[c]]
            | w # ws \<Rightarrow> (c # w) # ws))"
  by pat_completeness auto
termination
  by (relation "measure length") (auto simp: le_imp_less_Suc length_dropWhile_le)

text \<open>\<open>xs.join(sep)\<close>.\<close>

fun join :: "string \<Rightarrow> string list \<Rightarrow> string" where
  "join sep [] = []"
| "join sep [x] = x"
| "join sep (x # y # ys) = x @ sep @ join sep (y # ys)"

text \<open>\<open>s.includes(t)\<close>: \<open>t\<close> occurs in \<open>s\<close> as a contiguous run.\<close>

fun str_includes :: "string \<Rightarrow> string \<Rightarrow> bool" where
  "str_includes [] t = (t = [])"
| "str_includes (c # cs) t = (prefix t (c # cs) \<or> str_includes cs t)"

text \<open>\<open>s.replace(/\s+/g, ' ')\<close>: every maximal run of whitespace becomes one space.\<close>

function collapse_ws :: "string \<Rightarrow> string" where
  "collapse_ws [] = []"
| "collapse_ws (c # cs) =
     (if is_space c then CHR '' '' # collapse_ws (dropWhile is_space cs)
      else c # collapse_ws cs)"
  by pat_completeness auto
termination
  by (relation "measure length") (auto simp: le_imp_less_Suc length_dropWhile_le)

text \<open>\<open>[...new Set(xs)]\<close>: the distinct elements in order of first occurrence.\<close>

definition unique :: "'a list \<Rightarrow> 'a list" where
  "unique xs = rev (remdups (rev xs))"

section \<open>Configuration (ContextConfig.ts)\<close>

definition CHUNK_SIZE :: nat where "CHUNK_SIZE = 500"
definition CHUNK_OVERLAP :: nat where "CHUNK_OVERLAP = 50"
definition MIN_KEYWORD_LENGTH :: nat where "MIN_KEYWORD_LENGTH = 3"
definition MAX_CHUNKS_PER_QUERY :: nat where "MAX_CHUNKS_PER_QUERY = 5"

section \<open>Data model (ContextTypes.ts)\<close>

text \<open>Field names that clash with Isabelle keywords or constants carry a prime.
  A JavaScript number that is a relevance score is a quotient of two lengths below
  21 (at most 20 keywords), so it is modelled exactly as a rational: the comparison with
  0.05 and the sign of a difference of two scores agree with IEEE doubles there.\<close>

record ContextChunk =
  id' :: string
  content :: string
  keywords' :: "string list"
  section' :: "string option"
  relevanceScore :: "rat option"

record Section =
  title :: string
  content_s :: string

record ContextDocument =
  content_d :: string
  lastModified :: nat
  size' :: nat
  chunks :: "ContextChunk list"
  isValid :: bool

section \<open>ContextProcessor\<close>

subsection \<open>splitByMarkdownHeaders\<close>

text \<open>\<open>line.match(/^#{1,6}\s+/)\<close>: one to six \<open>#\<close> at the start of the line, then
  whitespace. A seventh \<open>#\<close> makes the match fail, since the character after the run of
  \<open>#\<close> must be whitespace.\<close>

definition is_header :: "string \<Rightarrow> bool" where
  "is_header line =
     (let hashes = takeWhile (\<lambda>c. c = CHR ''#'') line;
          rest = dropWhile (\<lambda>c. c = CHR ''#'') line
      in 1 \<le> length hashes \<and> length hashes \<le> 6 \<and>
         (case rest of [] \<Rightarrow> False | c # _ \<Rightarrow> is_space c))"

text \<open>\<open>line.replace(/^#{1,6}\s+/, '')\<close> on a line that matches.\<close>

definition strip_header :: "string \<Rightarrow> string" where
  "strip_header line = dropWhile is_space (dropWhile (\<lambda>c. c = CHR ''#'') line)"

fun split_loop :: "string list \<Rightarrow> Section list \<Rightarrow> Section \<Rightarrow> Section list \<times> Section" where
  "split_loop [] sections currentSection = (sections, currentSection)"
| "split_loop (line # lines) sections currentSection =
     (if is_header line then
        split_loop lines
          (if trim (content_s currentSection) \<noteq> [] then sections @ [currentSection]
           else sections)
          \<lparr>title = trim (strip_header line), content_s = line @ [CHR 0x0A]\<rparr>
      else
        split_loop lines sections
          (currentSection\<lparr>content_s := content_s currentSection @ line @ [CHR 0x0A]\<rparr>))"

definition splitByMarkdownHeaders :: "string \<Rightarrow> Section list" where
  "splitByMarkdownHeaders content' =
     (let (sections, currentSection) =
            split_loop (split_char (CHR 0x0A) content') [] \<lparr>title = [], content_s = []\<rparr>;
          sections = (if trim (content_s currentSection) \<noteq> []
                      then sections @ [currentSection] else sections)
      in if length sections = 0 then [\<lparr>title = ''Content'', content_s = content'\<rparr>]
         else sections)"

subsection \<open>extractKeywords\<close>

definition stopWords :: "string list" where
  "stopWords =
    [''the'', ''a'', ''an'', ''and'', ''or'', ''but'', ''in'', ''on'', ''at'', ''to'', ''for'',
     ''of'', ''with'', ''by'', ''from'', ''up'', ''about'', ''into'', ''through'', ''during'',
     ''before'', ''after'', ''above'', ''below'', ''is'', ''are'', ''was'', ''were'', ''be'',
     ''been'', ''being'', ''have'', ''has'', ''had'', ''do'', ''does'', ''did'', ''will'',
     ''would'', ''could'', ''should'', ''may'', ''might'', ''must'', ''can'', ''this'',
     ''that'', ''these'', ''those'']"

definition isStopWord :: "string \<Rightarrow> bool" where
  "isStopWord word = (toLowerCase word \<in> set stopWords)"

text \<open>The class \<open>[#*`_\[\]()]\<close>; the backquote is code unit 0x60.\<close>

definition is_markdown_char :: "char \<Rightarrow> bool" where
  "is_markdown_char c = (c \<in> set ''#*_[]()'' \<or> c = CHR 0x60)"

definition extractKeywords :: "string \<Rightarrow> string list" where
  "extractKeywords content' =
     (let cleanContent =
            trim (collapse_ws
              (map (\<lambda>c. if is_word_char c \<or> is_space c then c else CHR '' '')
                (toLowerCase
                  (map (\<lambda>c. if is_markdown_char c then CHR '' '' else c) content'))));
          words = filter (\<lambda>word. MIN_KEYWORD_LENGTH \<le> length word \<and> \<not> isStopWord word)
                    (split_char CHR '' '' cleanContent);
          uniqueWords = unique words
      in take 20 uniqueWords)"

subsection \<open>createChunksFromSection and processContextContent\<close>

text \<open>\<open>uuid()\<close> is a source of fresh identifiers outside the program: \<open>gen k\<close> is the
  value of its \<open>k\<close>-th call, and the counter of calls made so far is passed along.\<close>

function chunk_loop ::
  "(nat \<Rightarrow> string) \<Rightarrow> Section \<Rightarrow> string list \<Rightarrow> nat \<Rightarrow> nat \<Rightarrow> ContextChunk list \<times> nat" where
  "chunk_loop gen sec words i n =
     (if i < length words then
        (let chunkWords = take CHUNK_SIZE (drop i words);
             chunkContent = trim (join '' '' chunkWords)
         in if 0 < length chunkContent then
              (let (rest, n') = chunk_loop gen sec words (i + (CHUNK_SIZE - CHUNK_OVERLAP)) (Suc n)
               in (\<lparr>id' = gen n, content = chunkContent,
                     keywords' = extractKeywords chunkContent,
                     section' = (if title sec \<noteq> [] then Some (title sec) else None),
                     relevanceScore = None\<rparr> # rest, n'))
            else chunk_loop gen sec words (i + (CHUNK_SIZE - CHUNK_OVERLAP)) n)
      else ([], n))"
  by pat_completeness auto
termination
  by (relation "measure (\<lambda>(gen, sec, words, i, n). length words - i)")
     (auto simp: CHUNK_SIZE_def CHUNK_OVERLAP_def)

definition createChunksFromSection ::
  "(nat \<Rightarrow> string) \<Rightarrow> nat \<Rightarrow> Section \<Rightarrow> ContextChunk list \<times> nat" where
  "createChunksFromSection gen n sec = chunk_loop gen sec (split_ws (content_s sec)) 0 n"

fun process_sections ::
  "(nat \<Rightarrow> string) \<Rightarrow> nat \<Rightarrow> Section list \<Rightarrow> ContextChunk list \<times> nat" where
  "process_sections gen n [] = ([], n)"
| "process_sections gen n (sec # secs) =
     (let (sectionChunks, n1) = createChunksFromSection gen n sec;
          (rest, n2) = process_sections gen n1 secs
      in (sectionChunks @ rest, n2))"

definition processContextContent ::
  "(nat \<Rightarrow> string) \<Rightarrow> nat \<Rightarrow> string \<Rightarrow> ContextChunk list \<times> nat" where
  "processContextContent gen n content' = process_sections gen n (splitByMarkdownHeaders content')"

subsection \<open>Relevance scoring\<close>

definition calculateSimpleRelevanceScore :: "string list \<Rightarrow> ContextChunk \<Rightarrow> rat" where
  "calculateSimpleRelevanceScore queryKeywords chunk =
     (if length queryKeywords = 0 \<or> length (keywords' chunk) = 0 then 0
      else
        (let commonKeywords =
               filter (\<lambda>keyword.
                   list_ex (\<lambda>chunkKeyword.
                       str_includes (toLowerCase chunkKeyword) (toLowerCase keyword) \<or>
                       str_includes (toLowerCase keyword) (toLowerCase chunkKeyword))
                     (keywords' chunk))
                 queryKeywords
         in of_nat (length commonKeywords) / of_nat (length queryKeywords)))"

text \<open>\<open>Array.prototype.sort\<close> with a comparator is a stable sort: \<open>x\<close> goes before the
  first element it need not follow (\<open>cmp x y \<le> 0\<close>), elements inserted right to left.\<close>

fun insort_cmp :: "('a \<Rightarrow> 'a \<Rightarrow> rat) \<Rightarrow> 'a \<Rightarrow> 'a list \<Rightarrow> 'a list" where
  "insort_cmp cmp x [] = [x]"
| "insort_cmp cmp x (y # ys) =
     (if cmp x y \<le> 0 then x # y # ys else y # insort_cmp cmp x ys)"

definition sort_cmp :: "('a \<Rightarrow> 'a \<Rightarrow> rat) \<Rightarrow> 'a list \<Rightarrow> 'a list" where
  "sort_cmp cmp xs = foldr (insort_cmp cmp) xs []"

text \<open>\<open>(a, b) => (b.relevanceScore || 0) - (a.relevanceScore || 0)\<close>.\<close>

definition score_or_0 :: "ContextChunk \<Rightarrow> rat" where
  "score_or_0 c = (case relevanceScore c of None \<Rightarrow> 0 | Some s \<Rightarrow> s)"

definition by_score_desc :: "ContextChunk \<Rightarrow> ContextChunk \<Rightarrow> rat" where
  "by_score_desc a b = score_or_0 b - score_or_0 a"

definition extractRelevantChunks :: "string \<Rightarrow> ContextChunk list \<Rightarrow> ContextChunk list" where
  "extractRelevantChunks userQuery chunks' =
     (let queryKeywords = extractKeywords userQuery;
          scoredChunks =
            map (\<lambda>chunk. chunk\<lparr>relevanceScore :=
                   Some (calculateSimpleRelevanceScore queryKeywords chunk)\<rparr>) chunks';
          relevantChunks =
            take MAX_CHUNKS_PER_QUERY
              (sort_cmp by_score_desc
                (filter (\<lambda>chunk. 5 / 100 < score_or_0 chunk) scoredChunks))
      in if length relevantChunks = 0 \<and> 0 < length scoredChunks
         then take (min 2 MAX_CHUNKS_PER_QUERY) (sort_cmp by_score_desc scoredChunks)
         else relevantChunks)"

subsection \<open>buildContextPrompt\<close>

definition prompt_head :: string where
  "prompt_head =
     ''[CONTEXT ACTIVE] You have access to the following information about the user:''"

definition prompt_tail :: string where
  "prompt_tail = ''Please use this information to provide personalized and relevant responses. When the user asks about themselves, their projects, preferences, or anything related to the above information, incorporate these details naturally into your response. Start your response by acknowledging you have this context information.''"

definition render_chunk :: "ContextChunk \<Rightarrow> string" where
  "render_chunk chunk =
     (case section' chunk of
        None \<Rightarrow> []
      | Some s \<Rightarrow> if s \<noteq> [] then ''**'' @ s @ '':**'' @ [CHR 0x0A] else [])
     @ content chunk"

definition buildContextPrompt :: "string \<Rightarrow> ContextChunk list \<Rightarrow> string" where
  "buildContextPrompt userQuery relevantChunks =
     (if length relevantChunks = 0 then []
      else
        (let contextSections = map render_chunk relevantChunks
         in prompt_head @ [CHR 0x0A, CHR 0x0A] @
            join [CHR 0x0A, CHR 0x0A] contextSections @
            [CHR 0x0A, CHR 0x0A] @ prompt_tail))"

section \<open>ContextFileManager\<close>

text \<open>The file system (react-native-fs), the clock and \<open>uuid()\<close> are the world outside
  the program. Each file operation either raises or returns; the three results are
  independent, since the file can change between two of the calls.\<close>

datatype io_error = IOError | TypeError

record StatResult =
  mtime :: nat
  size_st :: nat

record World =
  rnfs_exists :: "io_error + bool"
  rnfs_readFile :: "io_error + string"
  rnfs_stat :: "io_error + StatResult"
  now :: nat
  uuid :: "nat \<Rightarrow> string"
  uuid_calls :: nat

definition checkContextFileExists :: "World \<Rightarrow> bool" where
  "checkContextFileExists w = (case rnfs_exists w of Inl e \<Rightarrow> False | Inr b \<Rightarrow> b)"

text \<open>The body of the \<open>try\<close> block of \<open>readContextFile\<close>: \<open>Inl\<close> is a raised exception.\<close>

definition readContextFile_try :: "World \<Rightarrow> io_error + ContextDocument option" where
  "readContextFile_try w =
     (if \<not> checkContextFileExists w then Inr None
      else
        (case rnfs_readFile w of
           Inl e \<Rightarrow> Inl e
         | Inr content' \<Rightarrow>
             (case rnfs_stat w of
                Inl e \<Rightarrow> Inl e
              | Inr stats \<Rightarrow>
                  Inr (Some \<lparr>content_d = content', lastModified = mtime stats,
                             size' = size_st stats, chunks = [],
                             isValid = (0 < length (trim content'))\<rparr>))))"

definition readContextFile :: "World \<Rightarrow> ContextDocument option" where
  "readContextFile w = (case readContextFile_try w of Inl e \<Rightarrow> None | Inr r \<Rightarrow> r)"

section \<open>MCPContextManager\<close>

record MCPContextManager =
  contextDocument :: "ContextDocument option"
  lastFileCheck :: "nat option"
  isInitialized :: bool

definition initial_manager :: MCPContextManager where
  "initial_manager = \<lparr>contextDocument = None, lastFileCheck = None, isInitialized = False\<rparr>"

text \<open>The body of the \<open>try\<close> block of \<open>refreshContext\<close>. \<open>readContextFile\<close> and
  \<open>processContextContent\<close> catch their own exceptions, so the block itself has no raising
  step; the \<open>catch\<close> clause (which clears the document) is kept as the \<open>Inl\<close> case.\<close>

definition refreshContext_try ::
  "World \<Rightarrow> MCPContextManager \<Rightarrow> io_error + MCPContextManager \<times> World" where
  "refreshContext_try w m =
     (case readContextFile w of
        Some contextDoc \<Rightarrow>
          (let (chunks', n) = processContextContent (uuid w) (uuid_calls w) (content_d contextDoc)
           in Inr (m\<lparr>contextDocument := Some (contextDoc\<lparr>chunks := chunks'\<rparr>),
                     lastFileCheck := Some (now w)\<rparr>,
                   w\<lparr>uuid_calls := n\<rparr>))
      | None \<Rightarrow> Inr (m\<lparr>contextDocument := None\<rparr>, w))"

definition refreshContext :: "World \<Rightarrow> MCPContextManager \<Rightarrow> MCPContextManager \<times> World" where
  "refreshContext w m =
     (case refreshContext_try w m of
        Inl e \<Rightarrow> (m\<lparr>contextDocument := None\<rparr>, w)
      | Inr r \<Rightarrow> r)"

definition initialize_try ::
  "World \<Rightarrow> MCPContextManager \<Rightarrow> io_error + MCPContextManager \<times> World" where
  "initialize_try w m =
     (let (m', w') = refreshContext w m
      in Inr (m'\<lparr>isInitialized := True\<rparr>, w'))"

definition initialize :: "World \<Rightarrow> MCPContextManager \<Rightarrow> MCPContextManager \<times> World" where
  "initialize w m = (case initialize_try w m of Inl e \<Rightarrow> (m, w) | Inr r \<Rightarrow> r)"

definition isContextAvailable :: "MCPContextManager \<Rightarrow> bool" where
  "isContextAvailable m =
     (case contextDocument m of
        None \<Rightarrow> False
      | Some d \<Rightarrow> isValid d \<and> 0 < length (chunks d))"

text \<open>The body of the \<open>try\<close> block of \<open>getContextForQuery\<close>; the non-null assertion
  \<open>this.contextDocument!\<close> on a null document would raise a TypeError.\<close>

definition getContextForQuery_try ::
  "string \<Rightarrow> World \<Rightarrow> MCPContextManager \<Rightarrow>
     io_error + string option \<times> MCPContextManager \<times> World" where
  "getContextForQuery_try userQuery w m =
     (let (m1, w1) = (if \<not> isInitialized m then initialize w m else (m, w))
      in if \<not> isContextAvailable m1 then Inr (None, m1, w1)
         else
           (case contextDocument m1 of
              None \<Rightarrow> Inl TypeError
            | Some d \<Rightarrow>
                (let relevantChunks = extractRelevantChunks userQuery (chunks d)
                 in if length relevantChunks = 0 then Inr (None, m1, w1)
                    else Inr (Some (buildContextPrompt userQuery relevantChunks), m1, w1))))"

text \<open>An exception leaves the fields as the last assignment made them: a failed lazy
  initialisation has already run inside its own \<open>try\<close>.\<close>

definition getContextForQuery ::
  "string \<Rightarrow> World \<Rightarrow> MCPContextManager \<Rightarrow> string option \<times> MCPContextManager \<times> World" where
  "getContextForQuery userQuery w m =
     (case getContextForQuery_try userQuery w m of
        Inl e \<Rightarrow> (let (m1, w1) = (if \<not> isInitialized m then initialize w m else (m, w))
                  in (None, m1, w1))
      | Inr r \<Rightarrow> r)"

definition forceRefresh :: "World \<Rightarrow> MCPContextManager \<Rightarrow> bool \<times> MCPContextManager \<times> World" where
  "forceRefresh w m = (let (m', w') = refreshContext w m in (isContextAvailable m', m', w'))"

definition cleanup :: "MCPContextManager \<Rightarrow> MCPContextManager" where
  "cleanup m = m\<lparr>contextDocument := None, isInitialized := False\<rparr>"

text \<open>The states the manager can be in: the initial one, and those reached from it by any
  sequence of its public operations, each against any world.\<close>

inductive reachable :: "MCPContextManager \<Rightarrow> bool" where
  reach_init: "reachable initial_manager"
| reach_initialize: "reachable m \<Longrightarrow> reachable (fst (initialize w m))"
| reach_refresh: "reachable m \<Longrightarrow> reachable (fst (refreshContext w m))"
| reach_query: "reachable m \<Longrightarrow> reachable (fst (snd (getContextForQuery q w m)))"
| reach_forceRefresh: "reachable m \<Longrightarrow> reachable (fst (snd (forceRefresh w m)))"
| reach_cleanup: "reachable m \<Longrightarrow> reachable (cleanup m)"

section \<open>Auxiliary notions and example inputs\<close>

definition chunk_a :: ContextChunk where
  "chunk_a = \<lparr>id' = ''a'', content = ''alpha beta'', keywords' = [''alpha'', ''beta''],
              section' = Some ''One'', relevanceScore = None\<rparr>"

definition chunk_b :: ContextChunk where
  "chunk_b = \<lparr>id' = ''b'', content = ''gamma'', keywords' = [''gamma''],
              section' = None, relevanceScore = None\<rparr>"

definition chunk_c :: ContextChunk where
  "chunk_c = \<lparr>id' = ''c'', content = ''delta'', keywords' = [''delta''],
              section' = Some ''Two'', relevanceScore = None\<rparr>"

definition docA :: string where
  "docA = ''# About'' @ [CHR 0x0A] @ ''I like Rust and Go.'' @ [CHR 0x0A] @
          ''# Hobbies'' @ [CHR 0x0A] @ ''I enjoy chess.''"

definition uuid_x :: "nat \<Rightarrow> string" where
  "uuid_x k = ''id-'' @ replicate k (CHR ''x'')"

definition world_doc :: World where
  "world_doc = \<lparr>rnfs_exists = Inr True, rnfs_readFile = Inr docA,
                 rnfs_stat = Inr \<lparr>mtime = 1000, size_st = 52\<rparr>,
                 now = 2000, uuid = uuid_x, uuid_calls = 0\<rparr>"

definition world_blank :: World where
  "world_blank = \<lparr>rnfs_exists = Inr True, rnfs_readFile = Inr [CHR '' '', CHR 0x0A],
                   rnfs_stat = Inr \<lparr>mtime = 1000, size_st = 2\<rparr>,
                   now = 2000, uuid = uuid_x, uuid_calls = 0\<rparr>"

definition world_absent :: World where
  "world_absent = \<lparr>rnfs_exists = Inr False, rnfs_readFile = Inl IOError,
                    rnfs_stat = Inl IOError,
                    now = 2000, uuid = uuid_x, uuid_calls = 0\<rparr>"

text \<open>Chunks and documents with the chunk ids blanked: what two chunk lists share when
  they differ only in the identifiers drawn from \<open>uuid()\<close>.\<close>

definition erase_id :: "ContextChunk \<Rightarrow> ContextChunk" where
  "erase_id c = c\<lparr>id' := []\<rparr>"

definition erase_ids :: "ContextDocument \<Rightarrow> ContextDocument" where
  "erase_ids d = d\<lparr>chunks := map erase_id (chunks d)\<rparr>"

definition long_section :: Section where
  "long_section = \<lparr>title = ''Long'', content_s = concat (replicate 1400 ''a '')\<rparr>"

text \<open>The words of a line: its non-empty whitespace-separated pieces.\<close>

definition ws_words :: "string \<Rightarrow> string list" where
  "ws_words s = filter (\<lambda>w. w \<noteq> []) (split_ws s)"

text \<open>The header line \<open>h\<close> starts the section \<open>s\<close>.\<close>

definition starts_section :: "string \<Rightarrow> Section \<Rightarrow> bool" where
  "starts_section h s =
     (is_header h \<and> prefix (h @ [CHR 0x0A]) (content_s s) \<and> title s = trim (strip_header h))"

text \<open>The sections once the loop over the lines has ended: the last section is pushed
  when its content is not blank.\<close>

definition push_last :: "Section list \<times> Section \<Rightarrow> Section list" where
  "push_last p = (if trim (content_s (snd p)) \<noteq> [] then fst p @ [snd p] else fst p)"

text \<open>Whether the first piece of \<open>split(/\s+/)\<close> is empty: 1 when the text is empty
  or starts with whitespace, else 0.\<close>

definition leading_blank :: "string \<Rightarrow> nat" where
  "leading_blank s = (if s = [] \<or> is_space (hd s) then 1 else 0)"

text \<open>A section whose content is a blank line followed by 1400 words, the word at
  index 449 being \<open>b\<close>.\<close>

definition lead_section :: Section where
  "lead_section =
     \<lparr>title = ''Lead'',
      content_s = CHR 0x0A #
        concat (map (\<lambda>w. w @ '' '') (replicate 449 ''a'' @ [''b''] @ replicate 950 ''a''))\<rparr>"

section \<open>Verified properties\<close>

subsection \<open>Sorting and scoring\<close>

lemma insort_cmp_le_hd:
  "(\<forall>y \<in> set ys. cmp x y \<le> 0) \<Longrightarrow> insort_cmp cmp x ys = x # ys"
  by (cases ys) simp_all

lemma sort_cmp_all_tied:
  "(\<forall>x \<in> set xs. \<forall>y \<in> set xs. cmp x y \<le> 0) \<Longrightarrow> sort_cmp cmp xs = xs"
proof (induction xs)
  case Nil
  then show ?case by (simp add: sort_cmp_def)
next
  case (Cons x xs)
  then have "sort_cmp cmp xs = xs" by simp
  then have "sort_cmp cmp (x # xs) = insort_cmp cmp x xs"
    by (simp add: sort_cmp_def)
  also have "\<dots> = x # xs"
    using Cons.prems by (intro insort_cmp_le_hd) simp
  finally show ?case .
qed

lemma take_min_length: "take (min n (length xs)) xs = take n xs"
  by (simp add: min_def)

lemma score_empty_query: "calculateSimpleRelevanceScore [] c = 0"
  by (simp add: calculateSimpleRelevanceScore_def)

lemma keywords_of_stop_words: "extractKeywords ''the and of'' = []"
  by code_simp

text \<open>
  C1. When the query has no keywords, every chunk scores 0, no chunk passes the 0.05
  threshold, and \<open>extractRelevantChunks\<close> returns, through its fallback, the first
  \<open>min 2 |chunks|\<close> chunks in document order (each carrying the score 0).
\<close>

theorem C1_empty_query_fallback:
  assumes "extractKeywords userQuery = []"
  shows "(\<forall>c \<in> set chunks'. calculateSimpleRelevanceScore (extractKeywords userQuery) c = 0) \<and>
         filter (\<lambda>c. 5 / 100 < score_or_0 c)
           (map (\<lambda>c. c\<lparr>relevanceScore :=
                  Some (calculateSimpleRelevanceScore (extractKeywords userQuery) c)\<rparr>) chunks') = [] \<and>
         extractRelevantChunks userQuery chunks' =
           map (\<lambda>c. c\<lparr>relevanceScore := Some 0\<rparr>) (take (min 2 (length chunks')) chunks')"
proof -
  let ?sc = "map (\<lambda>c. c\<lparr>relevanceScore := Some (0::rat)\<rparr>) chunks'"
  have flt: "filter (\<lambda>c. 5 / 100 < score_or_0 c) ?sc = []"
    by (simp add: filter_empty_conv score_or_0_def)
  have tied: "\<forall>x \<in> set ?sc. \<forall>y \<in> set ?sc. by_score_desc x y \<le> 0"
    by (auto simp: by_score_desc_def score_or_0_def)
  have srt: "sort_cmp by_score_desc ?sc = ?sc"
    using tied by (rule sort_cmp_all_tied)
  have res: "extractRelevantChunks userQuery chunks' = take 2 ?sc"
    using assms flt srt
    by (simp add: extractRelevantChunks_def Let_def score_empty_query sort_cmp_def
        MAX_CHUNKS_PER_QUERY_def)
  show ?thesis
    using assms flt res by (simp add: score_empty_query take_map take_min_length)
qed

theorem C1_empty_query_fallback_witness:
  "extractKeywords ''the and of'' = [] \<and>
   extractRelevantChunks ''the and of'' [chunk_a, chunk_b, chunk_c] =
     [chunk_a\<lparr>relevanceScore := Some 0\<rparr>, chunk_b\<lparr>relevanceScore := Some 0\<rparr>]"
  using C1_empty_query_fallback [OF keywords_of_stop_words, of "[chunk_a, chunk_b, chunk_c]"]
    keywords_of_stop_words
  by simp

subsection \<open>Prompt\<close>

lemma sublist_prepend: "sublist x ys \<Longrightarrow> sublist x (zs @ ys)"
  unfolding sublist_def by (metis append.assoc)

lemma sublist_join: "x \<in> set xs \<Longrightarrow> sublist x (join sep xs)"
proof (induction sep xs rule: join.induct)
  case (3 sep a b ys)
  show ?case
  proof (cases "x = a")
    case True
    then show ?thesis by simp
  next
    case False
    with 3 have "sublist x (join sep (b # ys))" by simp
    then have "sublist x ((a @ sep) @ join sep (b # ys))"
      by (rule sublist_prepend)
    then show ?thesis by simp
  qed
qed simp_all

lemma sublist_join_adjacent:
  "Suc i < length xs \<Longrightarrow> sublist (xs ! i @ sep @ xs ! Suc i) (join sep xs)"
proof (induction sep xs arbitrary: i rule: join.induct)
  case (3 sep a b ys)
  show ?case
  proof (cases i)
    case 0
    have "sublist (a @ sep @ b) ((a @ sep @ b) @ drop (length b) (join sep (b # ys)))"
      by (rule sublist_append_rightI)
    moreover have "b @ drop (length b) (join sep (b # ys)) = join sep (b # ys)"
      by (cases ys) simp_all
    ultimately show ?thesis using 0 by simp
  next
    case (Suc j)
    with 3 have "sublist ((b # ys) ! j @ sep @ (b # ys) ! Suc j) (join sep (b # ys))"
      by simp
    then have "sublist ((b # ys) ! j @ sep @ (b # ys) ! Suc j) ((a @ sep) @ join sep (b # ys))"
      by (rule sublist_prepend)
    then show ?thesis using Suc by simp
  qed
qed simp_all

lemma sublist_in_prompt:
  assumes "sublist x (join [CHR 0x0A, CHR 0x0A] (map render_chunk cs))" and "cs \<noteq> []"
  shows "sublist x (buildContextPrompt q cs)"
proof -
  let ?J = "join [CHR 0x0A, CHR 0x0A] (map render_chunk cs)"
  have "sublist ?J ((prompt_head @ [CHR 0x0A, CHR 0x0A]) @ ?J @ ([CHR 0x0A, CHR 0x0A] @ prompt_tail))"
    by (rule sublist_appendI)
  then have "sublist ?J (buildContextPrompt q cs)"
    using assms(2) by (simp add: buildContextPrompt_def)
  with assms(1) show ?thesis
    by (rule sublist_order.order_trans)
qed

lemma content_in_render: "sublist (content c) (render_chunk c)"
  by (simp add: render_chunk_def)

text \<open>
  C7. The prompt built from the empty list is the empty string. For a non-empty list it
  contains every chunk's text verbatim as a contiguous substring, preceded by the header
  \<open>**section:**\<close> and a newline when the chunk has a non-empty section, and the rendered
  chunks stand next to each other separated by a blank line.
\<close>

theorem C7_prompt_contains_chunks:
  "buildContextPrompt q [] = [] \<and>
   (\<forall>c \<in> set cs.
      sublist (content c) (buildContextPrompt q cs) \<and>
      (\<forall>s. section' c = Some s \<and> s \<noteq> [] \<longrightarrow>
         sublist (''**'' @ s @ '':**'' @ [CHR 0x0A] @ content c) (buildContextPrompt q cs))) \<and>
   (\<forall>i. Suc i < length cs \<longrightarrow>
      sublist (render_chunk (cs ! i) @ [CHR 0x0A, CHR 0x0A] @ render_chunk (cs ! Suc i))
        (buildContextPrompt q cs))"
proof (intro conjI ballI allI impI)
  show "buildContextPrompt q [] = []"
    by (simp add: buildContextPrompt_def)
next
  fix c assume c: "c \<in> set cs"
  then have ne: "cs \<noteq> []" by auto
  from c have "sublist (render_chunk c) (join [CHR 0x0A, CHR 0x0A] (map render_chunk cs))"
    by (intro sublist_join) simp
  then have r: "sublist (render_chunk c) (buildContextPrompt q cs)"
    using ne by (rule sublist_in_prompt)
  from content_in_render r show "sublist (content c) (buildContextPrompt q cs)"
    by (rule sublist_order.order_trans)
  fix s assume "section' c = Some s \<and> s \<noteq> []"
  then have "render_chunk c = ''**'' @ s @ '':**'' @ [CHR 0x0A] @ content c"
    by (simp add: render_chunk_def)
  with r show "sublist (''**'' @ s @ '':**'' @ [CHR 0x0A] @ content c) (buildContextPrompt q cs)"
    by simp
next
  fix i assume i: "Suc i < length cs"
  then have ne: "cs \<noteq> []" by auto
  from i have "sublist (map render_chunk cs ! i @ [CHR 0x0A, CHR 0x0A] @ map render_chunk cs ! Suc i)
                 (join [CHR 0x0A, CHR 0x0A] (map render_chunk cs))"
    by (intro sublist_join_adjacent) simp
  then have "sublist (render_chunk (cs ! i) @ [CHR 0x0A, CHR 0x0A] @ render_chunk (cs ! Suc i))
                 (join [CHR 0x0A, CHR 0x0A] (map render_chunk cs))"
    using i by simp
  then show "sublist (render_chunk (cs ! i) @ [CHR 0x0A, CHR 0x0A] @ render_chunk (cs ! Suc i))
                 (buildContextPrompt q cs)"
    using ne by (rule sublist_in_prompt)
qed

theorem C7_prompt_contains_chunks_witness:
  "sublist ''alpha beta'' (buildContextPrompt ''q'' [chunk_a, chunk_b]) \<and>
   sublist ''gamma'' (buildContextPrompt ''q'' [chunk_a, chunk_b]) \<and>
   sublist (''**One:**'' @ [CHR 0x0A] @ ''alpha beta'') (buildContextPrompt ''q'' [chunk_a, chunk_b]) \<and>
   sublist (''**One:**'' @ [CHR 0x0A] @ ''alpha beta'' @ [CHR 0x0A, CHR 0x0A] @ ''gamma'')
     (buildContextPrompt ''q'' [chunk_a, chunk_b])"
  using C7_prompt_contains_chunks [of "''q''" "[chunk_a, chunk_b]"]
  by (simp add: chunk_a_def chunk_b_def render_chunk_def)

subsection \<open>The selection is never empty on a non-empty chunk list\<close>

lemma length_insort_cmp: "length (insort_cmp cmp x ys) = Suc (length ys)"
  by (induction ys) simp_all

lemma length_sort_cmp: "length (sort_cmp cmp xs) = length xs"
  by (induction xs) (simp_all add: sort_cmp_def length_insort_cmp)

lemma take_nonempty: "0 < n \<Longrightarrow> xs \<noteq> [] \<Longrightarrow> take n xs \<noteq> []"
  by (cases xs; cases n) simp_all

lemma sort_cmp_nonempty: "xs \<noteq> [] \<Longrightarrow> sort_cmp cmp xs \<noteq> []"
  using length_sort_cmp [of cmp xs] by (cases "sort_cmp cmp xs") auto

lemma fallback_or_selection:
  "xs \<noteq> [] \<Longrightarrow>
     (if length rel = 0 \<and> 0 < length xs
      then take (min 2 MAX_CHUNKS_PER_QUERY) (sort_cmp cmp xs) else rel) \<noteq> []"
  by (auto simp: MAX_CHUNKS_PER_QUERY_def intro!: take_nonempty sort_cmp_nonempty)

lemma extractRelevantChunks_nonempty:
  assumes "cs \<noteq> []"
  shows "extractRelevantChunks q cs \<noteq> []"
  unfolding extractRelevantChunks_def Let_def
  by (rule fallback_or_selection) (use assms in simp)

lemma buildContextPrompt_nonempty: "rs \<noteq> [] \<Longrightarrow> buildContextPrompt q rs \<noteq> []"
  by (simp add: buildContextPrompt_def prompt_head_def)

subsection \<open>readContextFile\<close>

lemma readContextFile_cases:
  "readContextFile w =
     (if rnfs_exists w = Inr True then
        (case rnfs_readFile w of
           Inl e \<Rightarrow> None
         | Inr c \<Rightarrow>
             (case rnfs_stat w of
                Inl e \<Rightarrow> None
              | Inr st \<Rightarrow> Some \<lparr>content_d = c, lastModified = mtime st, size' = size_st st,
                                 chunks = [], isValid = (trim c \<noteq> [])\<rparr>))
      else None)"
  by (auto simp: readContextFile_def readContextFile_try_def checkContextFileExists_def
      split: sum.splits)

lemma readContextFile_valid:
  "readContextFile w = Some d \<Longrightarrow> isValid d = (trim (content_d d) \<noteq> [])"
  by (auto simp: readContextFile_cases split: if_splits sum.splits)


text \<open>
  C4 (as the code has it). \<open>readContextFile\<close> never raises: it returns \<open>None\<close> when the
  file is absent (or the existence check fails) and when reading or stat raises. When
  the file is read, it returns a document, also when the text is empty after trimming:
  that document has \<open>isValid = False\<close> and no chunks.
\<close>

theorem C4_readContextFile:
  "(rnfs_exists w \<noteq> Inr True \<longrightarrow> readContextFile w = None) \<and>
   ((\<exists>e. rnfs_readFile w = Inl e) \<or> (\<exists>e. rnfs_stat w = Inl e) \<longrightarrow> readContextFile w = None) \<and>
   (\<forall>e. readContextFile_try w = Inl e \<longrightarrow> readContextFile w = None) \<and>
   (\<forall>c st. rnfs_exists w = Inr True \<and> rnfs_readFile w = Inr c \<and> rnfs_stat w = Inr st \<longrightarrow>
      readContextFile w =
        Some \<lparr>content_d = c, lastModified = mtime st, size' = size_st st, chunks = [],
              isValid = (trim c \<noteq> [])\<rparr>)"
proof (intro conjI allI impI)
  assume "rnfs_exists w \<noteq> Inr True"
  then show "readContextFile w = None" by (simp add: readContextFile_cases)
next
  assume "(\<exists>e. rnfs_readFile w = Inl e) \<or> (\<exists>e. rnfs_stat w = Inl e)"
  then show "readContextFile w = None"
    by (auto simp: readContextFile_cases split: sum.splits)
next
  fix e assume "readContextFile_try w = Inl e"
  then show "readContextFile w = None" by (simp add: readContextFile_def)
next
  fix c st
  assume "rnfs_exists w = Inr True \<and> rnfs_readFile w = Inr c \<and> rnfs_stat w = Inr st"
  then show "readContextFile w =
        Some \<lparr>content_d = c, lastModified = mtime st, size' = size_st st, chunks = [],
              isValid = (trim c \<noteq> [])\<rparr>"
    by (simp add: readContextFile_cases)
qed

theorem C4_readContextFile_witness:
  "readContextFile world_absent = None \<and>
   readContextFile world_blank =
     Some \<lparr>content_d = [CHR '' '', CHR 0x0A], lastModified = 1000, size' = 2, chunks = [],
           isValid = False\<rparr>"
  using C4_readContextFile [of world_absent]
    C4_readContextFile [of world_blank, THEN conjunct2, THEN conjunct2, THEN conjunct2,
      THEN spec, THEN spec, of "[CHR '' '', CHR 0x0A]" "\<lparr>mtime = 1000, size_st = 2\<rparr>"]
  by (simp add: world_absent_def world_blank_def trim_def is_space_def)

theorem C4_empty_file_counterexample:
  "rnfs_exists world_blank = Inr True \<and>
   rnfs_readFile world_blank = Inr [CHR '' '', CHR 0x0A] \<and>
   trim [CHR '' '', CHR 0x0A] = [] \<and>
   readContextFile world_blank \<noteq> None"
  by (simp add: world_blank_def readContextFile_cases trim_def is_space_def)

subsection \<open>The manager's operations\<close>

lemma refreshContext_document:
  "contextDocument (fst (refreshContext w m)) =
     (case readContextFile w of
        None \<Rightarrow> None
      | Some d \<Rightarrow> Some (d\<lparr>chunks := fst (processContextContent (uuid w) (uuid_calls w) (content_d d))\<rparr>))"
  by (simp add: refreshContext_def refreshContext_try_def split: option.splits prod.splits)

lemma refreshContext_isInitialized:
  "isInitialized (fst (refreshContext w m)) = isInitialized m"
  by (simp add: refreshContext_def refreshContext_try_def split: option.splits prod.splits)

lemma initialize_eq:
  "initialize w m = (fst (refreshContext w m)\<lparr>isInitialized := True\<rparr>, snd (refreshContext w m))"
  by (simp add: initialize_def initialize_try_def split: prod.splits)

lemma forceRefresh_state: "fst (snd (forceRefresh w m)) = fst (refreshContext w m)"
  by (simp add: forceRefresh_def split: prod.splits)

lemma getContextForQuery_try_Inr:
  "getContextForQuery_try q w m =
     Inr (let m1 = (if isInitialized m then m else fst (initialize w m));
              w1 = (if isInitialized m then w else snd (initialize w m))
          in (if isContextAvailable m1
              then Some (buildContextPrompt q
                     (extractRelevantChunks q (chunks (the (contextDocument m1)))))
              else None, m1, w1))"
  by (auto simp: getContextForQuery_try_def Let_def isContextAvailable_def
        extractRelevantChunks_nonempty
      split: prod.splits option.splits)

lemma getContextForQuery_eq:
  "getContextForQuery q w m =
     (let m1 = (if isInitialized m then m else fst (initialize w m));
          w1 = (if isInitialized m then w else snd (initialize w m))
      in (if isContextAvailable m1
          then Some (buildContextPrompt q
                 (extractRelevantChunks q (chunks (the (contextDocument m1)))))
          else None, m1, w1))"
  by (simp add: getContextForQuery_def getContextForQuery_try_Inr)

lemma getContextForQuery_state:
  "fst (snd (getContextForQuery q w m)) = (if isInitialized m then m else fst (initialize w m))"
  by (simp add: getContextForQuery_eq Let_def)

text \<open>
  C2. \<open>getContextForQuery\<close> never raises (the body of its \<open>try\<close> block always returns).
  With \<open>m'\<close> the state after the lazy initialisation, it returns null exactly when the
  context is unavailable in \<open>m'\<close> (no document, document invalid, or no chunks), and a
  returned prompt is never the empty string.
\<close>

theorem C2_getContextForQuery:
  "(\<exists>r. getContextForQuery_try q w m = Inr r) \<and>
   fst (snd (getContextForQuery q w m)) = (if isInitialized m then m else fst (initialize w m)) \<and>
   (fst (getContextForQuery q w m) = None \<longleftrightarrow>
      (case contextDocument (fst (snd (getContextForQuery q w m))) of
         None \<Rightarrow> True
       | Some d \<Rightarrow> \<not> isValid d \<or> chunks d = [])) \<and>
   (fst (getContextForQuery q w m) = None \<longleftrightarrow>
      \<not> isContextAvailable (fst (snd (getContextForQuery q w m)))) \<and>
   (\<forall>p. fst (getContextForQuery q w m) = Some p \<longrightarrow> p \<noteq> [])"
proof -
  let ?m1 = "if isInitialized m then m else fst (initialize w m)"
  have st: "fst (snd (getContextForQuery q w m)) = ?m1"
    by (rule getContextForQuery_state)
  have res: "fst (getContextForQuery q w m) =
      (if isContextAvailable ?m1
       then Some (buildContextPrompt q (extractRelevantChunks q (chunks (the (contextDocument ?m1)))))
       else None)"
    by (simp add: getContextForQuery_eq Let_def)
  have av: "isContextAvailable ?m1 \<Longrightarrow> chunks (the (contextDocument ?m1)) \<noteq> []"
    by (auto simp: isContextAvailable_def split: option.splits)
  have ne: "isContextAvailable ?m1 \<Longrightarrow>
      buildContextPrompt q (extractRelevantChunks q (chunks (the (contextDocument ?m1)))) \<noteq> []"
    by (intro buildContextPrompt_nonempty extractRelevantChunks_nonempty av)
  have c1: "\<exists>r. getContextForQuery_try q w m = Inr r"
    by (rule exI, rule getContextForQuery_try_Inr)
  have c3: "fst (getContextForQuery q w m) = None \<longleftrightarrow> \<not> isContextAvailable ?m1"
    by (simp add: res)
  have c2: "\<not> isContextAvailable ?m1 \<longleftrightarrow>
      (case contextDocument ?m1 of None \<Rightarrow> True | Some d \<Rightarrow> \<not> isValid d \<or> chunks d = [])"
    by (simp add: isContextAvailable_def split: option.splits)
  have c4: "\<forall>p. fst (getContextForQuery q w m) = Some p \<longrightarrow> p \<noteq> []"
    using ne by (auto simp: res split: if_splits)
  show ?thesis
    using c1 c2 c3 c4 st by presburger
qed

lemma world_doc_query_available:
  "isContextAvailable
     (fst (snd (getContextForQuery ''What languages do you like?'' world_doc initial_manager)))"
  by code_simp

lemma world_absent_query_unavailable:
  "\<not> isContextAvailable
     (fst (snd (getContextForQuery ''What languages do you like?'' world_absent initial_manager)))"
  by code_simp

theorem C2_getContextForQuery_witness:
  "fst (getContextForQuery ''What languages do you like?'' world_doc initial_manager) \<noteq> None \<and>
   fst (getContextForQuery ''What languages do you like?'' world_doc initial_manager) \<noteq> Some [] \<and>
   fst (getContextForQuery ''What languages do you like?'' world_absent initial_manager) = None"
  using C2_getContextForQuery [of "''What languages do you like?''" world_doc initial_manager]
    C2_getContextForQuery [of "''What languages do you like?''" world_absent initial_manager]
    world_doc_query_available world_absent_query_unavailable
  by blast

subsection \<open>Reachable states\<close>

lemma reachable_valid_iff_trimmed:
  "reachable m \<Longrightarrow> contextDocument m = Some d \<Longrightarrow> isValid d = (trim (content_d d) \<noteq> [])"
proof (induction arbitrary: d rule: reachable.induct)
  case reach_init
  then show ?case by (simp add: initial_manager_def)
next
  case (reach_initialize m w)
  then show ?case
    by (auto simp: initialize_eq refreshContext_document
        dest: readContextFile_valid split: option.splits)
next
  case (reach_refresh m w)
  then show ?case
    by (auto simp: refreshContext_document dest: readContextFile_valid split: option.splits)
next
  case (reach_query m q w)
  then show ?case
    by (auto simp: getContextForQuery_state initialize_eq refreshContext_document
        dest: readContextFile_valid split: option.splits if_splits)
next
  case (reach_forceRefresh m w)
  then show ?case
    by (auto simp: forceRefresh_state refreshContext_document
        dest: readContextFile_valid split: option.splits)
next
  case (reach_cleanup m)
  then show ?case by (simp add: cleanup_def)
qed

text \<open>
  C6. In every reachable state of the manager, \<open>isContextAvailable\<close> holds exactly when
  there is a cached document that is valid and has at least one chunk; and the validity
  flag of a cached document says that its raw text is non-empty after trimming.
\<close>

theorem C6_isContextAvailable:
  assumes "reachable m"
  shows "(isContextAvailable m \<longleftrightarrow>
            (\<exists>d. contextDocument m = Some d \<and> isValid d \<and> chunks d \<noteq> [])) \<and>
         (isContextAvailable m \<longleftrightarrow>
            (\<exists>d. contextDocument m = Some d \<and> trim (content_d d) \<noteq> [] \<and> chunks d \<noteq> [])) \<and>
         (\<forall>d. contextDocument m = Some d \<longrightarrow> isValid d = (trim (content_d d) \<noteq> []))"
proof -
  have v: "\<forall>d. contextDocument m = Some d \<longrightarrow> isValid d = (trim (content_d d) \<noteq> [])"
    using assms by (auto dest: reachable_valid_iff_trimmed)
  have a: "isContextAvailable m \<longleftrightarrow>
            (\<exists>d. contextDocument m = Some d \<and> isValid d \<and> chunks d \<noteq> [])"
    by (auto simp: isContextAvailable_def split: option.splits)
  from a v show ?thesis by metis
qed

lemma world_doc_refresh_available:
  "isContextAvailable (fst (refreshContext world_doc initial_manager))"
  by code_simp

theorem C6_isContextAvailable_witness:
  "reachable (fst (refreshContext world_doc initial_manager)) \<and>
   isContextAvailable (fst (refreshContext world_doc initial_manager)) \<and>
   (\<exists>d. contextDocument (fst (refreshContext world_doc initial_manager)) = Some d \<and>
        trim (content_d d) \<noteq> [] \<and> chunks d \<noteq> [])"
  using C6_isContextAvailable [OF reach_refresh [OF reach_init, of world_doc]]
    reach_refresh [OF reach_init, of world_doc] world_doc_refresh_available
  by blast

subsection \<open>Chunking and the identifier source\<close>

declare chunk_loop.simps [simp del]

lemma chunk_loop_erase_id:
  "map erase_id (fst (chunk_loop gen sec ws i n)) =
   map erase_id (fst (chunk_loop gen' sec ws i n'))"
proof (induction gen sec ws i n arbitrary: n' rule: chunk_loop.induct)
  case (1 gen sec words i n)
  show ?case
  proof (cases "i < length words")
    case False
    then show ?thesis
      by (simp add: chunk_loop.simps [of _ sec words i])
  next
    case True
    let ?c = "trim (join '' '' (take CHUNK_SIZE (drop i words)))"
    show ?thesis
    proof (cases "0 < length ?c")
      case True
      from 1(1) [OF \<open>i < length words\<close> refl refl True, of "Suc n'"]
      show ?thesis
        using \<open>i < length words\<close> True
        by (simp add: chunk_loop.simps [of _ sec words i] Let_def erase_id_def
            case_prod_beta)
    next
      case False
      from 1(2) [OF \<open>i < length words\<close> refl refl False, of n']
      show ?thesis
        using \<open>i < length words\<close> False
        by (simp add: chunk_loop.simps [of _ sec words i] Let_def)
    qed
  qed
qed

lemma chunk_loop_ids:
  "snd (chunk_loop gen sec ws i n) = n + length (fst (chunk_loop gen sec ws i n)) \<and>
   map id' (fst (chunk_loop gen sec ws i n)) =
     map gen [n ..< n + length (fst (chunk_loop gen sec ws i n))]"
proof (induction gen sec ws i n rule: chunk_loop.induct)
  case (1 gen sec words i n)
  show ?case
  proof (cases "i < length words")
    case False
    then show ?thesis
      by (simp add: chunk_loop.simps [of _ sec words i])
  next
    case True
    let ?c = "trim (join '' '' (take CHUNK_SIZE (drop i words)))"
    show ?thesis
    proof (cases "0 < length ?c")
      case True
      obtain rest k where rk:
        "chunk_loop gen sec words (i + (CHUNK_SIZE - CHUNK_OVERLAP)) (Suc n) = (rest, k)"
        by (cases "chunk_loop gen sec words (i + (CHUNK_SIZE - CHUNK_OVERLAP)) (Suc n)")
      from 1(1) [OF \<open>i < length words\<close> refl refl True] rk
      have k: "k = Suc n + length rest"
        and ids: "map id' rest = map gen [Suc n ..< Suc n + length rest]"
        by simp_all
      have "[n ..< n + Suc (length rest)] = n # [Suc n ..< Suc n + length rest]"
        by (simp add: upt_conv_Cons del: upt_Suc)
      then show ?thesis
        using \<open>i < length words\<close> True rk k ids
        by (simp add: chunk_loop.simps [of _ sec words i] Let_def del: upt_Suc)
    next
      case False
      from 1(2) [OF \<open>i < length words\<close> refl refl False]
      show ?thesis
        using \<open>i < length words\<close> False
        by (simp add: chunk_loop.simps [of _ sec words i] Let_def)
    qed
  qed
qed


lemma createChunksFromSection_erase_id:
  "map erase_id (fst (createChunksFromSection gen n sec)) =
   map erase_id (fst (createChunksFromSection gen' n' sec))"
  unfolding createChunksFromSection_def by (rule chunk_loop_erase_id)

lemma process_sections_erase_id:
  "map erase_id (fst (process_sections gen n secs)) =
   map erase_id (fst (process_sections gen' n' secs))"
proof (induction secs arbitrary: n n')
  case Nil
  then show ?case by simp
next
  case (Cons sec secs)
  show ?case
    using createChunksFromSection_erase_id [of gen n sec gen' n']
      Cons.IH [of "snd (createChunksFromSection gen n sec)"
                  "snd (createChunksFromSection gen' n' sec)"]
    by (simp add: case_prod_beta)
qed

lemma process_sections_ids:
  "snd (process_sections gen n secs) = n + length (fst (process_sections gen n secs)) \<and>
   map id' (fst (process_sections gen n secs)) =
     map gen [n ..< n + length (fst (process_sections gen n secs))]"
proof (induction secs arbitrary: n)
  case Nil
  then show ?case by simp
next
  case (Cons sec secs)
  let ?a = "fst (createChunksFromSection gen n sec)"
  let ?n1 = "snd (createChunksFromSection gen n sec)"
  let ?b = "fst (process_sections gen ?n1 secs)"
  have n1: "?n1 = n + length ?a" and ida: "map id' ?a = map gen [n ..< n + length ?a]"
    using chunk_loop_ids [of gen sec "split_ws (content_s sec)" 0 n]
    by (simp_all add: createChunksFromSection_def)
  have n2: "snd (process_sections gen ?n1 secs) = ?n1 + length ?b"
    and idb: "map id' ?b = map gen [?n1 ..< ?n1 + length ?b]"
    using Cons.IH [of ?n1] by simp_all
  have "[n ..< n + length ?a + length ?b] = [n ..< n + length ?a] @ [n + length ?a ..< n + length ?a + length ?b]"
    by (rule upt_add_eq_append) simp
  then have "map id' (?a @ ?b) = map gen [n ..< n + length (?a @ ?b)]"
    using ida idb n1 by (simp add: add.assoc)
  then show ?case
    using n1 n2 by (simp add: case_prod_beta)
qed

text \<open>
  C3 (as the code has it). Processing a document twice gives chunk lists that agree,
  chunk by chunk, in text, keywords and section title; the ids are the successive values
  of \<open>uuid()\<close>, drawn anew at every processing. Two refreshes against the same file
  results give cached chunk lists that agree apart from the ids.
\<close>

theorem C3_chunking_deterministic_up_to_ids:
  "map erase_id (fst (processContextContent gen n D)) =
     map erase_id (fst (processContextContent gen' n' D)) \<and>
   map id' (fst (processContextContent gen n D)) =
     map gen [n ..< n + length (fst (processContextContent gen n D))] \<and>
   snd (processContextContent gen n D) = n + length (fst (processContextContent gen n D)) \<and>
   (rnfs_exists w' = rnfs_exists w \<and> rnfs_readFile w' = rnfs_readFile w \<and>
    rnfs_stat w' = rnfs_stat w \<longrightarrow>
      map_option erase_ids (contextDocument (fst (refreshContext w' m'))) =
      map_option erase_ids (contextDocument (fst (refreshContext w m))))"
proof (intro conjI impI)
  show "map erase_id (fst (processContextContent gen n D)) =
     map erase_id (fst (processContextContent gen' n' D))"
    unfolding processContextContent_def by (rule process_sections_erase_id)
  show "map id' (fst (processContextContent gen n D)) =
     map gen [n ..< n + length (fst (processContextContent gen n D))]"
    unfolding processContextContent_def using process_sections_ids by blast
  show "snd (processContextContent gen n D) = n + length (fst (processContextContent gen n D))"
    unfolding processContextContent_def using process_sections_ids by blast
next
  assume same: "rnfs_exists w' = rnfs_exists w \<and> rnfs_readFile w' = rnfs_readFile w \<and>
    rnfs_stat w' = rnfs_stat w"
  then have rd: "readContextFile w' = readContextFile w"
    by (auto simp: readContextFile_cases split: sum.splits)
  have pe: "\<And>c. map erase_id (fst (processContextContent (uuid w') (uuid_calls w') c)) =
                 map erase_id (fst (processContextContent (uuid w) (uuid_calls w) c))"
    unfolding processContextContent_def by (rule process_sections_erase_id)
  show "map_option erase_ids (contextDocument (fst (refreshContext w' m'))) =
      map_option erase_ids (contextDocument (fst (refreshContext w m)))"
    by (simp add: refreshContext_document rd erase_ids_def pe split: option.splits)
qed

theorem C3_chunking_deterministic_up_to_ids_witness:
  "map erase_id (fst (processContextContent uuid_x 0 docA)) =
     map erase_id (fst (processContextContent uuid_x 2 docA)) \<and>
   map_option erase_ids
     (contextDocument (fst (refreshContext (world_doc\<lparr>uuid_calls := 2\<rparr>) initial_manager))) =
   map_option erase_ids (contextDocument (fst (refreshContext world_doc initial_manager)))"
  using C3_chunking_deterministic_up_to_ids [of uuid_x 0 docA uuid_x 2
      "world_doc\<lparr>uuid_calls := 2\<rparr>" world_doc initial_manager initial_manager]
  by simp

lemma docA_ids_first: "map id' (fst (processContextContent uuid_x 0 docA)) = [''id-'', ''id-x'']"
  by code_simp

lemma docA_ids_count: "snd (processContextContent uuid_x 0 docA) = 2"
  by code_simp

lemma docA_ids_second:
  "map id' (fst (processContextContent uuid_x 2 docA)) = [''id-xx'', ''id-xxx'']"
  by code_simp

lemma world_doc_refresh_store:
  "rnfs_exists (snd (refreshContext world_doc initial_manager)) = rnfs_exists world_doc \<and>
   rnfs_readFile (snd (refreshContext world_doc initial_manager)) = rnfs_readFile world_doc \<and>
   rnfs_stat (snd (refreshContext world_doc initial_manager)) = rnfs_stat world_doc \<and>
   now (snd (refreshContext world_doc initial_manager)) = now world_doc"
  by code_simp

lemma world_doc_refresh_ids_first:
  "map_option (map id' \<circ> chunks)
     (contextDocument (fst (refreshContext world_doc initial_manager))) =
   Some [''id-'', ''id-x'']"
  by code_simp

lemma world_doc_refresh_ids_second:
  "map_option (map id' \<circ> chunks)
     (contextDocument
       (fst (refreshContext (snd (refreshContext world_doc initial_manager)) m))) =
   Some [''id-xx'', ''id-xxx'']"
proof -
  have "map_option (map id' \<circ> chunks)
     (contextDocument
       (fst (refreshContext (snd (refreshContext world_doc initial_manager)) initial_manager))) =
   Some [''id-xx'', ''id-xxx'']"
    by code_simp
  then show ?thesis
    by (simp add: refreshContext_document)
qed

lemma ids_differ:
  assumes "map_option (map id' \<circ> chunks) a = Some [''id-'', ''id-x'']"
    and "map_option (map id' \<circ> chunks) b = Some [''id-xx'', ''id-xxx'']"
  shows "map_option chunks a \<noteq> map_option chunks b" and "a \<noteq> b"
  using assms by auto

theorem C3_fresh_ids_counterexample:
  "fst (processContextContent uuid_x 0 docA) \<noteq>
   fst (processContextContent uuid_x (snd (processContextContent uuid_x 0 docA)) docA) \<and>
   rnfs_readFile (snd (refreshContext world_doc initial_manager)) = rnfs_readFile world_doc \<and>
   map_option chunks (contextDocument (fst (refreshContext world_doc initial_manager))) \<noteq>
   map_option chunks
     (contextDocument
       (fst (refreshContext (snd (refreshContext world_doc initial_manager))
              (fst (refreshContext world_doc initial_manager)))))"
proof -
  have a: "fst (processContextContent uuid_x 0 docA) \<noteq>
      fst (processContextContent uuid_x (snd (processContextContent uuid_x 0 docA)) docA)"
  proof
    assume "fst (processContextContent uuid_x 0 docA) =
      fst (processContextContent uuid_x (snd (processContextContent uuid_x 0 docA)) docA)"
    then have "map id' (fst (processContextContent uuid_x 0 docA)) =
      map id' (fst (processContextContent uuid_x (snd (processContextContent uuid_x 0 docA)) docA))"
      by simp
    then have "[''id-'', ''id-x''] = [''id-xx'', ''id-xxx'']"
      by (simp only: docA_ids_count docA_ids_first docA_ids_second)
    then show False by simp
  qed
  from a world_doc_refresh_store
    ids_differ(1) [OF world_doc_refresh_ids_first world_doc_refresh_ids_second]
  show ?thesis by blast
qed

subsection \<open>initialize\<close>

lemma isContextAvailable_erase_ids:
  "map_option erase_ids (contextDocument m2) = map_option erase_ids (contextDocument m1) \<Longrightarrow>
   isContextAvailable m2 = isContextAvailable m1"
  by (cases "contextDocument m1"; cases "contextDocument m2")
     (auto simp: isContextAvailable_def erase_ids_def
       dest!: arg_cong [where f = "\<lambda>d. (isValid d, chunks d = [])"])

lemma getContextForQuery_initialized:
  "isInitialized m \<Longrightarrow>
   getContextForQuery q w m =
     (if isContextAvailable m
      then Some (buildContextPrompt q (extractRelevantChunks q (chunks (the (contextDocument m)))))
      else None, m, w)"
  by (simp add: getContextForQuery_eq)

text \<open>
  C9 (as the code has it). After any call of \<open>initialize\<close> the initialized flag is
  true, whatever the file system did. A second call against the same file results reads
  the file again and leaves the same state apart from the chunk ids (and the refresh
  time): same flag, same document and chunks up to ids, same availability. There is no
  guard: the document after a second call is always the one read and chunked in that
  call. A query after
  \<open>initialize\<close> does no I/O: it leaves the state and the world as they are and its
  result does not depend on the world.
\<close>

theorem C9_initialize:
  "isInitialized (fst (initialize w m)) \<and>
   (rnfs_exists w' = rnfs_exists w \<and> rnfs_readFile w' = rnfs_readFile w \<and>
    rnfs_stat w' = rnfs_stat w \<longrightarrow>
      isInitialized (fst (initialize w' (fst (initialize w m)))) =
        isInitialized (fst (initialize w m)) \<and>
      map_option erase_ids (contextDocument (fst (initialize w' (fst (initialize w m))))) =
        map_option erase_ids (contextDocument (fst (initialize w m))) \<and>
      isContextAvailable (fst (initialize w' (fst (initialize w m)))) =
        isContextAvailable (fst (initialize w m))) \<and>
   getContextForQuery q w' (fst (initialize w m)) =
     (fst (getContextForQuery q w'' (fst (initialize w m))), fst (initialize w m), w') \<and>
   contextDocument (fst (initialize w' (fst (initialize w m)))) =
     (case readContextFile w' of
        None \<Rightarrow> None
      | Some d \<Rightarrow>
          Some (d\<lparr>chunks := fst (processContextContent (uuid w') (uuid_calls w') (content_d d))\<rparr>))"
proof (intro conjI impI)
  show init: "isInitialized (fst (initialize w m))"
    by (simp add: initialize_eq)
  show "contextDocument (fst (initialize w' (fst (initialize w m)))) =
     (case readContextFile w' of
        None \<Rightarrow> None
      | Some d \<Rightarrow>
          Some (d\<lparr>chunks := fst (processContextContent (uuid w') (uuid_calls w') (content_d d))\<rparr>))"
    by (simp add: initialize_eq refreshContext_document)
  show "getContextForQuery q w' (fst (initialize w m)) =
     (fst (getContextForQuery q w'' (fst (initialize w m))), fst (initialize w m), w')"
    using init by (simp add: getContextForQuery_initialized)
next
  assume same: "rnfs_exists w' = rnfs_exists w \<and> rnfs_readFile w' = rnfs_readFile w \<and>
    rnfs_stat w' = rnfs_stat w"
  show "isInitialized (fst (initialize w' (fst (initialize w m)))) =
        isInitialized (fst (initialize w m))"
    by (simp add: initialize_eq)
  have rd: "readContextFile w' = readContextFile w"
    using same by (auto simp: readContextFile_cases split: sum.splits)
  have pe: "\<And>c. map erase_id (fst (processContextContent (uuid w') (uuid_calls w') c)) =
                 map erase_id (fst (processContextContent (uuid w) (uuid_calls w) c))"
    unfolding processContextContent_def by (rule process_sections_erase_id)
  show docs: "map_option erase_ids (contextDocument (fst (initialize w' (fst (initialize w m))))) =
        map_option erase_ids (contextDocument (fst (initialize w m)))"
    by (simp add: initialize_eq refreshContext_document rd erase_ids_def pe split: option.splits)
  then show "isContextAvailable (fst (initialize w' (fst (initialize w m)))) =
        isContextAvailable (fst (initialize w m))"
    by (rule isContextAvailable_erase_ids)
qed

theorem C9_initialize_witness:
  "isInitialized (fst (initialize world_absent initial_manager)) \<and>
   isInitialized (fst (initialize world_doc initial_manager)) \<and>
   map_option erase_ids
     (contextDocument
       (fst (initialize (snd (initialize world_doc initial_manager))
              (fst (initialize world_doc initial_manager))))) =
   map_option erase_ids (contextDocument (fst (initialize world_doc initial_manager)))"
proof -
  have same: "rnfs_exists (snd (initialize world_doc initial_manager)) = rnfs_exists world_doc \<and>
      rnfs_readFile (snd (initialize world_doc initial_manager)) = rnfs_readFile world_doc \<and>
      rnfs_stat (snd (initialize world_doc initial_manager)) = rnfs_stat world_doc"
    using world_doc_refresh_store by (simp add: initialize_eq)
  note again = C9_initialize [of world_doc initial_manager
      "snd (initialize world_doc initial_manager)"]
  from C9_initialize [of world_absent initial_manager, THEN conjunct1]
    again [THEN conjunct1]
    again [THEN conjunct2, THEN conjunct1, rule_format, OF same]
  show ?thesis by blast
qed

theorem C9_second_initialize_counterexample:
  "rnfs_exists (snd (initialize world_doc initial_manager)) = rnfs_exists world_doc \<and>
   rnfs_readFile (snd (initialize world_doc initial_manager)) = rnfs_readFile world_doc \<and>
   rnfs_stat (snd (initialize world_doc initial_manager)) = rnfs_stat world_doc \<and>
   now (snd (initialize world_doc initial_manager)) = now world_doc \<and>
   fst (initialize (snd (initialize world_doc initial_manager))
          (fst (initialize world_doc initial_manager))) \<noteq>
   fst (initialize world_doc initial_manager)"
proof -
  have "contextDocument (fst (initialize (snd (initialize world_doc initial_manager))
          (fst (initialize world_doc initial_manager)))) \<noteq>
        contextDocument (fst (initialize world_doc initial_manager))"
    using ids_differ(2) [OF world_doc_refresh_ids_first
        world_doc_refresh_ids_second [of "fst (initialize world_doc initial_manager)"]]
    by (simp add: initialize_eq)
  then have "fst (initialize (snd (initialize world_doc initial_manager))
          (fst (initialize world_doc initial_manager))) \<noteq>
        fst (initialize world_doc initial_manager)"
    by (rule contrapos_nn) simp
  with world_doc_refresh_store show ?thesis
    by (simp add: initialize_eq)
qed

subsection \<open>Scenario A\<close>

text \<open>
  C8. Scenario A: for the two-section document and the query about languages, the one
  selected chunk belongs to the section "About" and the prompt built from the selection
  contains "Rust" and "Go".
\<close>

theorem C8_scenario_A:
  "map section'
     (extractRelevantChunks ''What languages do you like?''
        (fst (processContextContent gen n docA))) = [Some ''About''] \<and>
   map content
     (extractRelevantChunks ''What languages do you like?''
        (fst (processContextContent gen n docA))) = [''# About I like Rust and Go.''] \<and>
   sublist ''Rust''
     (buildContextPrompt ''What languages do you like?''
        (extractRelevantChunks ''What languages do you like?''
           (fst (processContextContent gen n docA)))) \<and>
   sublist ''Go''
     (buildContextPrompt ''What languages do you like?''
        (extractRelevantChunks ''What languages do you like?''
           (fst (processContextContent gen n docA))))"
  by code_simp

subsection \<open>Tokens of a section\<close>

lemma split_ws_nonempty: "split_ws s \<noteq> []"
  by (induction s rule: split_ws.induct) (auto split: list.splits)

lemma split_ws_no_space: "\<forall>t \<in> set (split_ws s). \<forall>c \<in> set t. \<not> is_space c"
proof (induction s rule: split_ws.induct)
  case 1
  then show ?case by simp
next
  case (2 c cs)
  show ?case
  proof (cases "is_space c")
    case True
    with 2(1) show ?thesis by simp
  next
    case False
    obtain w ws' where w: "split_ws cs = w # ws'"
      using split_ws_nonempty [of cs] by (cases "split_ws cs") auto
    with False have eq: "split_ws (c # cs) = (c # w) # ws'" by simp
    from 2(2) [OF False] w False show ?thesis
      unfolding eq by auto
  qed
qed

lemma split_ws_long: "Suc 0 < length (split_ws s) \<Longrightarrow> s \<noteq> []"
  by (cases s) auto

lemma split_ws_hd_nonempty:
  "s \<noteq> [] \<Longrightarrow> \<not> is_space (hd s) \<Longrightarrow> hd (split_ws s) \<noteq> []"
  by (cases s) (auto split: list.splits)

lemma dropWhile_hd_not: "dropWhile P xs \<noteq> [] \<Longrightarrow> \<not> P (hd (dropWhile P xs))"
  by (simp add: hd_dropWhile)

lemma split_ws_interior_nonempty:
  "0 < j \<Longrightarrow> Suc j < length (split_ws s) \<Longrightarrow> split_ws s ! j \<noteq> []"
proof (induction s arbitrary: j rule: split_ws.induct)
  case 1
  then show ?case by simp
next
  case (2 c cs)
  show ?case
  proof (cases "is_space c")
    case True
    let ?s' = "dropWhile is_space cs"
    from True have eq: "split_ws (c # cs) = [] # split_ws ?s'" by simp
    from 2(3,4) eq obtain j' where j': "j = Suc j'" "Suc j' < length (split_ws ?s')"
      by (cases j) auto
    show ?thesis
    proof (cases j')
      case 0
      from j' 0 have "?s' \<noteq> []" by (intro split_ws_long) simp
      moreover from this have "\<not> is_space (hd ?s')" by (rule dropWhile_hd_not)
      ultimately have "hd (split_ws ?s') \<noteq> []" by (rule split_ws_hd_nonempty)
      then show ?thesis
        using eq j' 0 split_ws_nonempty [of ?s'] by (simp add: hd_conv_nth)
    next
      case (Suc j'')
      with 2(1) [OF True, of j'] j' have "split_ws ?s' ! j' \<noteq> []" by simp
      then show ?thesis using eq j' by simp
    qed
  next
    case False
    obtain w ws' where w: "split_ws cs = w # ws'"
      using split_ws_nonempty [of cs] by (cases "split_ws cs") auto
    with False have eq: "split_ws (c # cs) = (c # w) # ws'" by simp
    from 2(2) [OF False, of j] 2(3,4) eq w show ?thesis
      by (cases j) auto
  qed
qed

lemma trim_nonempty: "c \<in> set s \<Longrightarrow> \<not> is_space c \<Longrightarrow> trim s \<noteq> []"
proof -
  assume c: "c \<in> set s" "\<not> is_space c"
  have "c \<in> set (takeWhile is_space s) \<or> c \<in> set (dropWhile is_space s)"
    using c(1) by (metis Un_iff set_append takeWhile_dropWhile_id)
  with c(2) have "c \<in> set (dropWhile is_space s)"
    by (auto dest: set_takeWhileD)
  then have "c \<in> set (rev (dropWhile is_space s))" by simp
  with c(2) have "dropWhile is_space (rev (dropWhile is_space s)) \<noteq> []"
    by (auto simp: dropWhile_eq_Nil_conv)
  then show ?thesis by (simp add: trim_def)
qed

lemma set_join_superset: "t \<in> set xs \<Longrightarrow> set t \<subseteq> set (join sep xs)"
  by (rule set_mono_sublist) (rule sublist_join)

lemma window_nonempty:
  assumes "t \<in> set xs" "t \<noteq> []" "\<forall>c \<in> set t. \<not> is_space c"
  shows "trim (join sep xs) \<noteq> []"
proof -
  from assms(2) obtain c where c: "c \<in> set t" by (cases t) auto
  with assms(1) have "c \<in> set (join sep xs)" using set_join_superset by blast
  moreover from c assms(3) have "\<not> is_space c" by blast
  ultimately show ?thesis by (rule trim_nonempty)
qed


subsection \<open>The windows of the chunk loop\<close>

lemma chunk_loop_past_end:
  "length ws \<le> i \<Longrightarrow> chunk_loop gen sec ws i n = ([], n)"
  by (simp add: chunk_loop.simps [of gen sec ws i n])

text \<open>If every window that is followed by another one has non-empty text, the \<open>k\<close>-th
  emitted chunk is the \<open>k\<close>-th window from the start index.\<close>

lemma chunk_loop_nth:
  assumes "\<forall>j. i + Suc j * (CHUNK_SIZE - CHUNK_OVERLAP) < length ws \<longrightarrow>
             trim (join '' '' (take CHUNK_SIZE (drop (i + j * (CHUNK_SIZE - CHUNK_OVERLAP)) ws))) \<noteq> []"
    and "k < length (fst (chunk_loop gen sec ws i n))"
  shows "i + k * (CHUNK_SIZE - CHUNK_OVERLAP) < length ws \<and>
         content (fst (chunk_loop gen sec ws i n) ! k) =
           trim (join '' '' (take CHUNK_SIZE (drop (i + k * (CHUNK_SIZE - CHUNK_OVERLAP)) ws)))"
  using assms
proof (induction gen sec ws i n arbitrary: k rule: chunk_loop.induct)
  case (1 gen sec words i n)
  let ?step = "CHUNK_SIZE - CHUNK_OVERLAP"
  let ?c = "trim (join '' '' (take CHUNK_SIZE (drop i words)))"
  have lt: "i < length words"
  proof (rule ccontr)
    assume "\<not> i < length words"
    then have "chunk_loop gen sec words i n = ([], n)"
      by (intro chunk_loop_past_end) simp
    with 1(4) show False by simp
  qed
  have shifted: "\<forall>j. (i + ?step) + Suc j * ?step < length words \<longrightarrow>
      trim (join '' '' (take CHUNK_SIZE (drop ((i + ?step) + j * ?step) words))) \<noteq> []"
  proof (intro allI impI)
    fix j assume "(i + ?step) + Suc j * ?step < length words"
    then have "i + Suc (Suc j) * ?step < length words" by (simp add: ac_simps)
    with 1(3) have "trim (join '' '' (take CHUNK_SIZE (drop (i + Suc j * ?step) words))) \<noteq> []"
      by blast
    then show "trim (join '' '' (take CHUNK_SIZE (drop ((i + ?step) + j * ?step) words))) \<noteq> []"
      by (simp add: ac_simps)
  qed
  show ?case
  proof (cases "0 < length ?c")
    case True
    obtain rest n' where r: "chunk_loop gen sec words (i + ?step) (Suc n) = (rest, n')"
      by (cases "chunk_loop gen sec words (i + ?step) (Suc n)")
    have unf: "fst (chunk_loop gen sec words i n) =
        \<lparr>id' = gen n, content = ?c, keywords' = extractKeywords ?c,
          section' = (if title sec \<noteq> [] then Some (title sec) else None),
          relevanceScore = None\<rparr> # rest"
      using lt True r by (simp add: chunk_loop.simps [of gen sec words i n] Let_def)
    show ?thesis
    proof (cases k)
      case 0
      with unf lt show ?thesis by simp
    next
      case (Suc k')
      with 1(4) unf r have "k' < length (fst (chunk_loop gen sec words (i + ?step) (Suc n)))"
        by simp
      from 1(1) [OF lt refl refl True shifted this] r
      have "i + ?step + k' * ?step < length words \<and>
            content (rest ! k') =
              trim (join '' '' (take CHUNK_SIZE (drop (i + ?step + k' * ?step) words)))"
        by simp
      then show ?thesis
        using unf Suc by (simp add: ac_simps)
    qed
  next
    case False
    have "\<not> i + Suc 0 * ?step < length words"
      using 1(3) [rule_format, of 0] False by auto
    then have "chunk_loop gen sec words (i + ?step) n = ([], n)"
      by (intro chunk_loop_past_end) simp
    then have "fst (chunk_loop gen sec words i n) = []"
      using lt False by (simp add: chunk_loop.simps [of gen sec words i n] Let_def)
    with 1(4) show ?thesis by simp
  qed
qed

text \<open>A window of \<open>split_ws\<close> tokens that is followed by another window has a token that
  is neither the first nor the last of the section, hence non-empty text.\<close>

lemma split_ws_window_nonempty:
  assumes "Suc j * (CHUNK_SIZE - CHUNK_OVERLAP) < length (split_ws s)"
  shows "trim (join '' '' (take CHUNK_SIZE (drop (j * (CHUNK_SIZE - CHUNK_OVERLAP)) (split_ws s)))) \<noteq> []"
proof -
  let ?ws = "split_ws s"
  let ?i = "j * (CHUNK_SIZE - CHUNK_OVERLAP)"
  let ?t = "?ws ! Suc ?i"
  have bound: "Suc (Suc ?i) < length ?ws"
    using assms by (simp add: CHUNK_SIZE_def CHUNK_OVERLAP_def)
  then have t_ne: "?t \<noteq> []"
    by (intro split_ws_interior_nonempty) simp_all
  have "?t \<in> set ?ws" using bound by simp
  then have t_ns: "\<forall>c \<in> set ?t. \<not> is_space c"
    using split_ws_no_space by blast
  have "take CHUNK_SIZE (drop ?i ?ws) ! 1 = ?t"
    using bound by (simp add: CHUNK_SIZE_def)
  moreover have "1 < length (take CHUNK_SIZE (drop ?i ?ws))"
    using bound by (simp add: CHUNK_SIZE_def)
  ultimately have "?t \<in> set (take CHUNK_SIZE (drop ?i ?ws))"
    by (metis nth_mem)
  then show ?thesis using t_ne t_ns by (rule window_nonempty)
qed

text \<open>Under the same condition every window that is followed by another one is
  emitted.\<close>

lemma chunk_loop_emits:
  assumes "\<forall>j. i + Suc j * (CHUNK_SIZE - CHUNK_OVERLAP) < length ws \<longrightarrow>
             trim (join '' '' (take CHUNK_SIZE (drop (i + j * (CHUNK_SIZE - CHUNK_OVERLAP)) ws))) \<noteq> []"
    and "i + Suc k * (CHUNK_SIZE - CHUNK_OVERLAP) < length ws"
  shows "k < length (fst (chunk_loop gen sec ws i n))"
  using assms
proof (induction gen sec ws i n arbitrary: k rule: chunk_loop.induct)
  case (1 gen sec words i n)
  let ?step = "CHUNK_SIZE - CHUNK_OVERLAP"
  let ?c = "trim (join '' '' (take CHUNK_SIZE (drop i words)))"
  from 1(4) have lt: "i < length words" by simp
  from 1(4) have "i + Suc 0 * ?step < length words" by simp
  with 1(3) [rule_format, of 0] have c: "0 < length ?c" by simp
  obtain rest n' where r: "chunk_loop gen sec words (i + ?step) (Suc n) = (rest, n')"
    by (cases "chunk_loop gen sec words (i + ?step) (Suc n)")
  have len: "length (fst (chunk_loop gen sec words i n)) = Suc (length rest)"
    using lt c r by (simp add: chunk_loop.simps [of gen sec words i n] Let_def)
  show ?case
  proof (cases k)
    case 0
    with len show ?thesis by simp
  next
    case (Suc k')
    have shifted: "\<forall>j. (i + ?step) + Suc j * ?step < length words \<longrightarrow>
        trim (join '' '' (take CHUNK_SIZE (drop ((i + ?step) + j * ?step) words))) \<noteq> []"
    proof (intro allI impI)
      fix j assume "(i + ?step) + Suc j * ?step < length words"
      then have "i + Suc (Suc j) * ?step < length words" by (simp add: ac_simps)
      with 1(3) have "trim (join '' '' (take CHUNK_SIZE (drop (i + Suc j * ?step) words))) \<noteq> []"
        by blast
      then show "trim (join '' '' (take CHUNK_SIZE (drop ((i + ?step) + j * ?step) words))) \<noteq> []"
        by (simp add: ac_simps)
    qed
    from 1(4) Suc have "(i + ?step) + Suc k' * ?step < length words"
      by (simp add: ac_simps)
    from 1(1) [OF lt refl refl c shifted this] r have "k' < length rest" by simp
    with len Suc show ?thesis by simp
  qed
qed

lemma createChunksFromSection_emits:
  "450 * Suc k < length (split_ws (content_s sec)) \<Longrightarrow>
   k < length (fst (createChunksFromSection gen n sec))"
  unfolding createChunksFromSection_def
  by (rule chunk_loop_emits)
     (simp_all add: split_ws_window_nonempty, simp add: CHUNK_SIZE_def CHUNK_OVERLAP_def)

lemma split_ws_a_space:
  "length (split_ws (concat (replicate m ''a ''))) = Suc m"
proof (induction m)
  case 0
  then show ?case by simp
next
  case (Suc m)
  have "dropWhile is_space (concat (replicate m ''a '')) = concat (replicate m ''a '')"
    by (cases m) (simp_all add: is_space_def)
  then show ?case
    using Suc split_ws_nonempty [of "concat (replicate m ''a '')"]
    by (simp add: is_space_def split: list.splits)
qed

subsection \<open>Header lines and their sections\<close>

lemma split_ws_append_space:
  "is_space c \<Longrightarrow>
   split_ws (u @ c # v) =
     (hd (split_ws u) # filter (\<lambda>w. w \<noteq> []) (tl (split_ws u))) @ split_ws (dropWhile is_space v)"
proof (induction u rule: split_ws.induct)
  case 1
  then show ?case by simp
next
  case (2 a u')
  show ?case
  proof (cases "is_space a")
    case True
    let ?u'' = "dropWhile is_space u'"
    show ?thesis
    proof (cases "\<forall>x \<in> set u'. is_space x")
      case all: True
      then have e: "?u'' = []" by simp
      from all 2(3) have "dropWhile is_space (u' @ c # v) = dropWhile is_space v"
        by (simp add: dropWhile_append)
      then show ?thesis using True by (simp add: e)
    next
      case notall: False
      then have ne: "?u'' \<noteq> []" by simp
      then have "\<not> is_space (hd ?u'')" by (rule dropWhile_hd_not)
      with ne have hdne: "hd (split_ws ?u'') \<noteq> []" by (rule split_ws_hd_nonempty)
      obtain w ws' where w: "split_ws ?u'' = w # ws'"
        using split_ws_nonempty [of ?u''] by (cases "split_ws ?u''") auto
      from notall obtain x where "x \<in> set u'" "\<not> is_space x" by blast
      then have "dropWhile is_space (u' @ c # v) = ?u'' @ c # v"
        by (rule dropWhile_append1)
      with 2(1) [OF True 2(3)] True w hdne show ?thesis by simp
    qed
  next
    case False
    obtain w ws' where w: "split_ws u' = w # ws'"
      using split_ws_nonempty [of u'] by (cases "split_ws u'") auto
    with 2(2) [OF False 2(3)] False show ?thesis by simp
  qed
qed

lemma split_ws_header_then_rest:
  assumes "u \<noteq> []" "\<not> is_space (hd u)" "is_space c"
  shows "split_ws (u @ c # v) = ws_words u @ split_ws (dropWhile is_space v)"
proof -
  obtain w ws' where w: "split_ws u = w # ws'"
    using split_ws_nonempty [of u] by (cases "split_ws u") auto
  from assms(1,2) have "hd (split_ws u) \<noteq> []" by (rule split_ws_hd_nonempty)
  with w have "ws_words u = hd (split_ws u) # filter (\<lambda>w. w \<noteq> []) (tl (split_ws u))"
    by (simp add: ws_words_def)
  with split_ws_append_space [OF assms(3), of u v] show ?thesis by simp
qed

lemma split_ws_no_space_word:
  "u \<noteq> [] \<Longrightarrow> \<forall>x \<in> set u. \<not> is_space x \<Longrightarrow> split_ws u = [u]"
proof (induction u)
  case Nil
  then show ?case by simp
next
  case (Cons a u)
  show ?case
  proof (cases u)
    case Nil
    with Cons.prems show ?thesis by simp
  next
    case (Cons b u')
    with Cons.IH Cons.prems have "split_ws u = [u]" by simp
    with Cons.prems show ?thesis by simp
  qed
qed

lemma ws_words_clean:
  "t \<in> set (ws_words s) \<Longrightarrow> t \<noteq> [] \<and> (\<forall>c \<in> set t. \<not> is_space c)"
  using split_ws_no_space [of s] by (auto simp: ws_words_def)

lemma is_header_hash:
  assumes "is_header h"
  shows "h \<noteq> []" and "hd h = CHR ''#''" and "\<not> is_space (hd h)"
proof -
  from assms have "takeWhile (\<lambda>c. c = CHR ''#'') h \<noteq> []"
    by (auto simp: is_header_def Let_def)
  then show "h \<noteq> []" and h: "hd h = CHR ''#''"
    by (cases h; simp split: if_splits)+
  show "\<not> is_space (hd h)" by (simp add: h is_space_def)
qed

lemma header_first_word:
  assumes "is_header h"
  shows "hd (ws_words h) = takeWhile (\<lambda>c. c = CHR ''#'') h" and "ws_words h \<noteq> []"
proof -
  let ?hashes = "takeWhile (\<lambda>c. c = CHR ''#'') h"
  from assms have ne: "?hashes \<noteq> []" by (auto simp: is_header_def Let_def)
  from assms obtain c r where r: "dropWhile (\<lambda>c. c = CHR ''#'') h = c # r" "is_space c"
    by (auto simp: is_header_def Let_def split: list.splits)
  have h: "h = ?hashes @ c # r"
    using r(1) by (metis takeWhile_dropWhile_id)
  have clean: "\<forall>x \<in> set ?hashes. \<not> is_space x"
    by (auto dest!: set_takeWhileD simp: is_space_def)
  have "split_ws ?hashes = [?hashes]"
    using ne clean by (rule split_ws_no_space_word)
  then have "hd (split_ws ?hashes) # filter (\<lambda>w. w \<noteq> []) (tl (split_ws ?hashes)) = [?hashes]"
    by simp
  with split_ws_append_space [OF r(2), of ?hashes r]
  have "split_ws (?hashes @ c # r) = ?hashes # split_ws (dropWhile is_space r)"
    by simp
  with h have sp: "split_ws h = ?hashes # split_ws (dropWhile is_space r)" by simp
  with ne show "hd (ws_words h) = ?hashes" and "ws_words h \<noteq> []"
    by (simp_all add: ws_words_def)
qed


lemma join_append:
  "xs \<noteq> [] \<Longrightarrow> ys \<noteq> [] \<Longrightarrow> join sep (xs @ ys) = join sep xs @ sep @ join sep ys"
proof (induction sep xs rule: join.induct)
  case (2 sep x)
  then show ?case by (cases ys) simp_all
qed simp_all

lemma join_clean:
  assumes "xs \<noteq> []" "\<forall>t \<in> set xs. t \<noteq> [] \<and> (\<forall>c \<in> set t. \<not> is_space c)"
  shows "join sep xs \<noteq> [] \<and> \<not> is_space (hd (join sep xs)) \<and> \<not> is_space (last (join sep xs))"
  using assms
proof (induction sep xs rule: join.induct)
  case (1 sep)
  then show ?case by simp
next
  case (2 sep x)
  then have "x \<noteq> []" "hd x \<in> set x" "last x \<in> set x" by simp_all
  with 2 show ?case by simp
next
  case (3 sep x y ys)
  then have x: "x \<noteq> []" "hd x \<in> set x" by simp_all
  from 3 have "join sep (y # ys) \<noteq> [] \<and> \<not> is_space (last (join sep (y # ys)))"
    by simp
  with x 3(3) show ?case by simp
qed

lemma trim_keeps_clean_prefix:
  assumes "s \<noteq> []" "\<not> is_space (hd s)" "\<not> is_space (last s)"
  shows "prefix s (trim (s @ t))"
proof -
  from assms(1,2) have l: "dropWhile is_space (s @ t) = s @ t"
    by (cases s) simp_all
  from assms(1,3) have r: "dropWhile is_space (rev s) = rev s"
    by (cases "rev s") (simp_all add: last_rev [symmetric] hd_rev)
  have "\<exists>x. dropWhile is_space (rev t @ rev s) = x @ rev s"
  proof (cases "\<forall>c \<in> set (rev t). is_space c")
    case True
    then have "dropWhile is_space (rev t @ rev s) = [] @ rev s"
      by (simp add: dropWhile_append r)
    then show ?thesis by blast
  next
    case False
    then obtain c where "c \<in> set (rev t)" "\<not> is_space c" by blast
    then have "dropWhile is_space (rev t @ rev s) = dropWhile is_space (rev t) @ rev s"
      by (rule dropWhile_append1)
    then show ?thesis by blast
  qed
  then obtain x where "dropWhile is_space (rev t @ rev s) = x @ rev s" by blast
  then have "trim (s @ t) = s @ rev x"
    by (simp add: trim_def l)
  then show ?thesis by simp
qed

lemma first_window_starts_with_header:
  assumes "is_header h" "prefix (h @ [CHR 0x0A]) c"
  shows "prefix (join '' '' (take n (ws_words h))) (trim (join '' '' (take n (split_ws c))))"
    and "0 < n \<Longrightarrow> trim (join '' '' (take n (split_ws c))) \<noteq> []"
proof -
  from assms(2) obtain rest where c: "c = h @ CHR 0x0A # rest"
    by (auto simp: prefix_def)
  have nl: "is_space (CHR 0x0A)" by (simp add: is_space_def)
  let ?tail = "split_ws (dropWhile is_space rest)"
  have ws: "split_ws c = ws_words h @ ?tail"
    unfolding c using is_header_hash(1,3) [OF assms(1)] nl by (rule split_ws_header_then_rest)
  define X where "X = take n (ws_words h)"
  define Y where "Y = take (n - length (ws_words h)) ?tail"
  have tk: "take n (split_ws c) = X @ Y" by (simp add: ws X_def Y_def)
  have clean: "\<forall>t \<in> set X. t \<noteq> [] \<and> (\<forall>c \<in> set t. \<not> is_space c)"
    unfolding X_def using ws_words_clean by (meson in_set_takeD)
  have pre: "prefix (join '' '' X) (trim (join '' '' (X @ Y)))"
  proof (cases "X = []")
    case True
    show ?thesis by (simp only: True join.simps Nil_prefix)
  next
    case False
    note jc = join_clean [OF False clean, of "'' ''"]
    show ?thesis
    proof (cases "Y = []")
      case True
      have "prefix (join '' '' X) (trim (join '' '' X @ []))"
        using trim_keeps_clean_prefix jc by blast
      then show ?thesis by (simp only: True append_Nil2)
    next
      case Yne: False
      have "prefix (join '' '' X) (trim (join '' '' X @ ('' '' @ join '' '' Y)))"
        using trim_keeps_clean_prefix jc by blast
      then show ?thesis by (simp only: join_append [OF False Yne])
    qed
  qed
  then show "prefix (join '' '' (take n (ws_words h))) (trim (join '' '' (take n (split_ws c))))"
    by (simp only: tk X_def)
  show "trim (join '' '' (take n (split_ws c))) \<noteq> []" if "0 < n"
  proof -
    from that header_first_word(2) [OF assms(1)] have "X \<noteq> []" by (simp add: X_def)
    from join_clean [OF this clean, of "'' ''"] pre show ?thesis
      unfolding tk by auto
  qed
qed

lemma chunk_loop_first:
  assumes "i < length ws" "trim (join '' '' (take CHUNK_SIZE (drop i ws))) \<noteq> []"
  shows "\<exists>rest. fst (chunk_loop gen sec ws i n) =
     \<lparr>id' = gen n, content = trim (join '' '' (take CHUNK_SIZE (drop i ws))),
       keywords' = extractKeywords (trim (join '' '' (take CHUNK_SIZE (drop i ws)))),
       section' = (if title sec \<noteq> [] then Some (title sec) else None),
       relevanceScore = None\<rparr> # rest"
  using assms
  by (simp add: chunk_loop.simps [of gen sec ws i n] Let_def case_prod_beta)

text \<open>What a header line \<open>h\<close> gives the section \<open>s\<close> it starts and that section's first
  chunk.\<close>

lemma header_section_first_chunk:
  assumes "is_header h" "prefix (h @ [CHR 0x0A]) (content_s s)"
  shows "\<exists>c rest. fst (createChunksFromSection gen n s) = c # rest \<and>
           content c = trim (join '' '' (take 500 (split_ws (content_s s)))) \<and>
           prefix (join '' '' (take 500 (ws_words h))) (content c) \<and>
           keywords' c = extractKeywords (content c)"
proof -
  let ?ws = "split_ws (content_s s)"
  let ?c0 = "trim (join '' '' (take CHUNK_SIZE (drop 0 ?ws)))"
  have "0 < length ?ws" using split_ws_nonempty [of "content_s s"] by simp
  moreover have "?c0 \<noteq> []"
    using first_window_starts_with_header(2) [OF assms, of CHUNK_SIZE]
    by (simp add: CHUNK_SIZE_def)
  ultimately obtain rest where "fst (chunk_loop gen s ?ws 0 n) =
     \<lparr>id' = gen n, content = ?c0, keywords' = extractKeywords ?c0,
       section' = (if title s \<noteq> [] then Some (title s) else None),
       relevanceScore = None\<rparr> # rest"
    using chunk_loop_first [of 0 ?ws gen s n] by blast
  with first_window_starts_with_header(1) [OF assms, of 500] show ?thesis
    by (simp add: createChunksFromSection_def CHUNK_SIZE_def)
qed


subsection \<open>The sections of a document\<close>

lemma splitByMarkdownHeaders_push_last:
  "splitByMarkdownHeaders D =
     (let S = push_last (split_loop (split_char (CHR 0x0A) D) [] \<lparr>title = [], content_s = []\<rparr>)
      in if S = [] then [\<lparr>title = ''Content'', content_s = D\<rparr>] else S)"
  by (simp add: splitByMarkdownHeaders_def push_last_def Let_def case_prod_beta)

lemma starts_section_not_blank:
  assumes "starts_section h s"
  shows "trim (content_s s) \<noteq> []"
proof -
  from assms have "is_header h" and p: "prefix (h @ [CHR 0x0A]) (content_s s)"
    by (simp_all add: starts_section_def)
  from is_header_hash(1) [OF \<open>is_header h\<close>] have "hd h \<in> set h" by (rule hd_in_set)
  moreover from p have "set h \<subseteq> set (content_s s)"
    by (auto simp: prefix_def)
  ultimately have "hd h \<in> set (content_s s)" by blast
  then show ?thesis
    using is_header_hash(3) [OF \<open>is_header h\<close>] by (rule trim_nonempty)
qed

lemma starts_section_extend:
  "starts_section h s \<Longrightarrow> starts_section h (s\<lparr>content_s := content_s s @ extra\<rparr>)"
  by (auto simp: starts_section_def prefix_def)

lemma split_loop_after_header:
  "starts_section hc cur \<Longrightarrow>
   \<exists>S. push_last (split_loop lines secs cur) = secs @ S \<and>
       list_all2 starts_section (hc # filter is_header lines) S"
proof (induction lines arbitrary: secs cur hc)
  case Nil
  then show ?case
    by (simp add: push_last_def starts_section_not_blank)
next
  case (Cons line lines)
  show ?case
  proof (cases "is_header line")
    case True
    let ?new = "\<lparr>title = trim (strip_header line), content_s = line @ [CHR 0x0A]\<rparr>"
    from True have "starts_section line ?new" by (simp add: starts_section_def)
    from Cons.IH [OF this, of "secs @ [cur]"] obtain S where
      S: "push_last (split_loop lines (secs @ [cur]) ?new) = (secs @ [cur]) @ S"
         "list_all2 starts_section (line # filter is_header lines) S"
      by blast
    have "push_last (split_loop (line # lines) secs cur) = secs @ (cur # S)"
      using True S(1) starts_section_not_blank [OF Cons.prems] by simp
    moreover have "list_all2 starts_section (hc # filter is_header (line # lines)) (cur # S)"
      using True S(2) Cons.prems by simp
    ultimately show ?thesis by blast
  next
    case False
    from Cons.IH [OF starts_section_extend [OF Cons.prems, of "line @ [CHR 0x0A]"], of secs]
    show ?thesis using False by simp
  qed
qed

lemma split_loop_from_start:
  "\<exists>pre S. push_last (split_loop lines [] cur) = pre @ S \<and>
       list_all2 starts_section (filter is_header lines) S"
proof (induction lines arbitrary: cur)
  case Nil
  have "push_last (split_loop [] [] cur) = push_last ([], cur) @ []" by simp
  then show ?case by fastforce
next
  case (Cons line lines)
  show ?case
  proof (cases "is_header line")
    case True
    let ?new = "\<lparr>title = trim (strip_header line), content_s = line @ [CHR 0x0A]\<rparr>"
    let ?secs = "if trim (content_s cur) \<noteq> [] then [cur] else []"
    from True have "starts_section line ?new" by (simp add: starts_section_def)
    from split_loop_after_header [OF this, of lines ?secs] obtain S where
      "push_last (split_loop lines ?secs ?new) = ?secs @ S"
      "list_all2 starts_section (line # filter is_header lines) S"
      by blast
    then have "push_last (split_loop (line # lines) [] cur) = ?secs @ S \<and>
               list_all2 starts_section (filter is_header (line # lines)) S"
      using True by (cases "trim (content_s cur) \<noteq> []") simp_all
    then show ?thesis by blast
  next
    case False
    from Cons.IH [of "cur\<lparr>content_s := content_s cur @ line @ [CHR 0x0A]\<rparr>"] False
    show ?thesis by simp
  qed
qed

lemma header_sections:
  "list_all2 starts_section
     (filter is_header (split_char (CHR 0x0A) D))
     (drop (length (splitByMarkdownHeaders D) - length (filter is_header (split_char (CHR 0x0A) D)))
        (splitByMarkdownHeaders D))"
proof -
  let ?hs = "filter is_header (split_char (CHR 0x0A) D)"
  obtain pre S where
    ps: "push_last (split_loop (split_char (CHR 0x0A) D) [] \<lparr>title = [], content_s = []\<rparr>) = pre @ S"
    and S: "list_all2 starts_section ?hs S"
    using split_loop_from_start by blast
  from S have len: "length S = length ?hs" by (simp add: list_all2_lengthD)
  show ?thesis
  proof (cases "pre @ S = []")
    case True
    with len S show ?thesis by simp
  next
    case False
    then have "splitByMarkdownHeaders D = pre @ S"
      by (simp add: splitByMarkdownHeaders_push_last ps)
    with S len show ?thesis by simp
  qed
qed

text \<open>
  C10 (as the code has it). Take the header lines of a document in order; they start
  the last sections of \<open>splitByMarkdownHeaders\<close>, one each. The section's content begins
  with the header line verbatim (its \<open>#\<close> characters included) and a newline. The
  section has a first chunk; its text begins with the first 500 words of the header line
  joined by single spaces, the first word being the run of \<open>#\<close>; the chunk's keywords are
  extracted from that text. The text begins with the header line itself when the line
  has at most 500 words, separated by single spaces, and no trailing whitespace.
\<close>

theorem C10_header_in_first_chunk:
  "list_all2
     (\<lambda>h s.
        prefix (h @ [CHR 0x0A]) (content_s s) \<and>
        title s = trim (strip_header h) \<and>
        hd (ws_words h) = takeWhile (\<lambda>c. c = CHR ''#'') h \<and>
        (\<exists>c rest.
           fst (createChunksFromSection gen n s) = c # rest \<and>
           content c = trim (join '' '' (take 500 (split_ws (content_s s)))) \<and>
           prefix (join '' '' (take 500 (ws_words h))) (content c) \<and>
           (length (ws_words h) \<le> 500 \<and> join '' '' (ws_words h) = h \<longrightarrow> prefix h (content c)) \<and>
           keywords' c = extractKeywords (content c)))
     (filter is_header (split_char (CHR 0x0A) D))
     (drop (length (splitByMarkdownHeaders D) - length (filter is_header (split_char (CHR 0x0A) D)))
        (splitByMarkdownHeaders D))"
proof (rule list_all2_mono [OF header_sections])
  fix h s
  assume hs: "starts_section h s"
  then have ih: "is_header h" and p: "prefix (h @ [CHR 0x0A]) (content_s s)"
    and t: "title s = trim (strip_header h)"
    by (simp_all add: starts_section_def)
  from header_section_first_chunk [OF ih p, of gen n] obtain c rest where
    c: "fst (createChunksFromSection gen n s) = c # rest"
       "content c = trim (join '' '' (take 500 (split_ws (content_s s))))"
       "prefix (join '' '' (take 500 (ws_words h))) (content c)"
       "keywords' c = extractKeywords (content c)"
    by blast
  have "length (ws_words h) \<le> 500 \<and> join '' '' (ws_words h) = h \<longrightarrow> prefix h (content c)"
    using c(3) by auto
  with c p t header_first_word(1) [OF ih]
  show "prefix (h @ [CHR 0x0A]) (content_s s) \<and>
        title s = trim (strip_header h) \<and>
        hd (ws_words h) = takeWhile (\<lambda>c. c = CHR ''#'') h \<and>
        (\<exists>c rest.
           fst (createChunksFromSection gen n s) = c # rest \<and>
           content c = trim (join '' '' (take 500 (split_ws (content_s s)))) \<and>
           prefix (join '' '' (take 500 (ws_words h))) (content c) \<and>
           (length (ws_words h) \<le> 500 \<and> join '' '' (ws_words h) = h \<longrightarrow> prefix h (content c)) \<and>
           keywords' c = extractKeywords (content c))"
    by blast
qed

lemma docA_headers:
  "filter is_header (split_char (CHR 0x0A) docA) = [''# About'', ''# Hobbies'']"
  by code_simp

lemma docA_sections:
  "splitByMarkdownHeaders docA =
     [\<lparr>title = ''About'', content_s = ''# About'' @ [CHR 0x0A] @ ''I like Rust and Go.'' @ [CHR 0x0A]\<rparr>,
      \<lparr>title = ''Hobbies'', content_s = ''# Hobbies'' @ [CHR 0x0A] @ ''I enjoy chess.'' @ [CHR 0x0A]\<rparr>]"
  by code_simp

lemma hobbies_header_words:
  "length (ws_words ''# Hobbies'') \<le> 500 \<and> join '' '' (ws_words ''# Hobbies'') = ''# Hobbies''"
  by code_simp

lemma hobbies_keywords:
  "map keywords' (fst (createChunksFromSection uuid_x 0 (splitByMarkdownHeaders docA ! 1))) =
     [[''hobbies'', ''enjoy'', ''chess'']]"
  by code_simp

lemma docA_header_sections_all:
  "drop (length (splitByMarkdownHeaders docA) - length [''# About'', ''# Hobbies''])
     (splitByMarkdownHeaders docA) = splitByMarkdownHeaders docA"
  by (simp add: docA_sections)

theorem C10_header_in_first_chunk_witness:
  "(\<exists>c rest. fst (createChunksFromSection uuid_x 0 (splitByMarkdownHeaders docA ! 1)) = c # rest \<and>
       prefix ''# Hobbies'' (content c) \<and>
       keywords' c = extractKeywords (content c)) \<and>
   map keywords' (fst (createChunksFromSection uuid_x 0 (splitByMarkdownHeaders docA ! 1))) =
     [[''hobbies'', ''enjoy'', ''chess'']]"
proof -
  note all = C10_header_in_first_chunk [of uuid_x 0 docA,
      unfolded docA_header_sections_all docA_headers]
  have "1 < length [''# About'', ''# Hobbies'']" by simp
  from list_all2_nthD [OF all this] hobbies_header_words
  have "\<exists>c rest. fst (createChunksFromSection uuid_x 0 (splitByMarkdownHeaders docA ! 1)) = c # rest \<and>
       prefix ''# Hobbies'' (content c) \<and>
       keywords' c = extractKeywords (content c)"
    by (simp only: nth_Cons_Suc nth_Cons_0 One_nat_def) blast
  with hobbies_keywords show ?thesis by blast
qed

theorem C10_header_spacing_counterexample:
  "filter is_header (split_char (CHR 0x0A) ''#  A'') = [''#  A''] \<and>
   map content_s (splitByMarkdownHeaders ''#  A'') = [''#  A'' @ [CHR 0x0A]] \<and>
   map content (fst (processContextContent uuid_x 0 ''#  A'')) = [''# A''] \<and>
   \<not> prefix ''#  A'' ''# A'' \<and>
   \<not> sublist ''#  A'' ''# A''"
  by code_simp

subsection \<open>Windows in words\<close>

lemma ws_words_dropWhile: "ws_words (dropWhile is_space s) = ws_words s"
proof (induction s)
  case Nil
  then show ?case by simp
next
  case (Cons c s)
  show ?case
  proof (cases "is_space c")
    case True
    have "ws_words (c # s) = ws_words (dropWhile is_space s)"
      using True by (simp add: ws_words_def)
    with True show ?thesis by simp
  next
    case False
    then show ?thesis by simp
  qed
qed

lemma ws_words_append_space:
  assumes "is_space c"
  shows "ws_words (u @ c # v) = ws_words u @ ws_words v"
proof -
  obtain w ws' where w: "split_ws u = w # ws'"
    using split_ws_nonempty [of u] by (cases "split_ws u") auto
  have "ws_words (u @ c # v) =
      filter (\<lambda>w. w \<noteq> []) (w # filter (\<lambda>w. w \<noteq> []) ws') @ ws_words (dropWhile is_space v)"
    using split_ws_append_space [OF assms, of u v] w by (simp add: ws_words_def)
  also have "filter (\<lambda>w. w \<noteq> []) (w # filter (\<lambda>w. w \<noteq> []) ws') = ws_words u"
    using w by (simp add: ws_words_def)
  finally show ?thesis by (simp add: ws_words_dropWhile)
qed

lemma ws_words_spaces:
  assumes "\<forall>x \<in> set v. is_space x"
  shows "ws_words v = []"
proof -
  from assms have "dropWhile is_space v = []" by simp
  with ws_words_dropWhile [of v] show ?thesis by (simp add: ws_words_def)
qed

lemma ws_words_trailing_spaces:
  "\<forall>x \<in> set v. is_space x \<Longrightarrow> ws_words (u @ v) = ws_words u"
  by (cases v) (simp_all add: ws_words_append_space ws_words_spaces)

lemma ws_words_trim: "ws_words (trim s) = ws_words s"
proof -
  let ?s' = "dropWhile is_space s"
  have "rev ?s' = takeWhile is_space (rev ?s') @ dropWhile is_space (rev ?s')" by simp
  then have "?s' = rev (dropWhile is_space (rev ?s')) @ rev (takeWhile is_space (rev ?s'))"
    by (metis rev_append rev_rev_ident)
  moreover have "\<forall>x \<in> set (rev (takeWhile is_space (rev ?s'))). is_space x"
    by (auto dest: set_takeWhileD)
  ultimately have "ws_words ?s' = ws_words (rev (dropWhile is_space (rev ?s')))"
    by (metis ws_words_trailing_spaces)
  then show ?thesis by (simp add: trim_def ws_words_dropWhile)
qed

lemma ws_words_word:
  "\<forall>c \<in> set x. \<not> is_space c \<Longrightarrow> ws_words x = (if x = [] then [] else [x])"
  by (cases "x = []") (simp_all add: ws_words_def split_ws_no_space_word)

lemma ws_words_join:
  "\<forall>t \<in> set xs. \<forall>c \<in> set t. \<not> is_space c \<Longrightarrow>
   ws_words (join '' '' xs) = filter (\<lambda>w. w \<noteq> []) xs"
proof (induction "'' ''" xs rule: join.induct)
  case 1
  then show ?case by (simp add: ws_words_def)
next
  case (2 x)
  then show ?case by (simp add: ws_words_word)
next
  case (3 x y ys)
  have sp: "is_space CHR '' ''" by (simp add: is_space_def)
  have "ws_words (join '' '' (x # y # ys)) = ws_words x @ ws_words (join '' '' (y # ys))"
    using ws_words_append_space [OF sp, of x "join '' '' (y # ys)"] by simp
  with 3 show ?case by (simp add: ws_words_word)
qed

text \<open>The words of a chunk's text are the non-empty pieces of its window.\<close>

lemma ws_words_window:
  "ws_words (trim (join '' '' (take m (drop i (split_ws s))))) =
     filter (\<lambda>w. w \<noteq> []) (take m (drop i (split_ws s)))"
proof -
  have "\<forall>t \<in> set (take m (drop i (split_ws s))). \<forall>c \<in> set t. \<not> is_space c"
    using split_ws_no_space [of s] by (meson in_set_dropD in_set_takeD)
  then show ?thesis by (simp add: ws_words_trim ws_words_join)
qed

lemma hd_split_ws_empty: "hd (split_ws s) = [] \<longleftrightarrow> s = [] \<or> is_space (hd s)"
proof (cases s)
  case Nil
  then show ?thesis by simp
next
  case (Cons c cs)
  then show ?thesis
    using split_ws_nonempty [of cs] by (auto split: list.splits)
qed

lemma trailing_blank_only:
  assumes "\<forall>j. Suc j < length xs \<longrightarrow> xs ! j \<noteq> []"
  shows "\<exists>post. xs = filter (\<lambda>w. w \<noteq> []) xs @ post \<and> (post = [] \<or> post = [[]])"
proof (cases xs rule: rev_cases)
  case Nil
  then show ?thesis by simp
next
  case (snoc ys z)
  have "\<forall>y \<in> set ys. y \<noteq> []"
  proof
    fix y assume "y \<in> set ys"
    then obtain j where j: "j < length ys" "ys ! j = y" by (auto simp: in_set_conv_nth)
    with assms snoc have "xs ! j \<noteq> []" by simp
    with j snoc show "y \<noteq> []" by (simp add: nth_append)
  qed
  then have f: "filter (\<lambda>w. w \<noteq> []) ys = ys" by (simp add: filter_id_conv)
  show ?thesis
  proof (cases "z = []")
    case True
    with snoc f have "xs = filter (\<lambda>w. w \<noteq> []) xs @ [[]]" by simp
    then show ?thesis by blast
  next
    case False
    with snoc f have "xs = filter (\<lambda>w. w \<noteq> []) xs @ []" by simp
    then show ?thesis by blast
  qed
qed

text \<open>The pieces of \<open>split(/\s+/)\<close> are the words, after one empty piece when the text is
  empty or starts with whitespace, and before one when it ends with whitespace.\<close>

lemma split_ws_structure:
  "\<exists>post. split_ws s = replicate (leading_blank s) [] @ ws_words s @ post \<and>
          (post = [] \<or> post = [[]])"
proof (cases "hd (split_ws s) = []")
  case False
  then have lb: "leading_blank s = 0"
    by (simp add: leading_blank_def hd_split_ws_empty)
  have "\<forall>j. Suc j < length (split_ws s) \<longrightarrow> split_ws s ! j \<noteq> []"
  proof (intro allI impI)
    fix j assume j: "Suc j < length (split_ws s)"
    show "split_ws s ! j \<noteq> []"
    proof (cases j)
      case 0
      with False split_ws_nonempty [of s] show ?thesis by (simp add: hd_conv_nth)
    next
      case (Suc j')
      with j show ?thesis by (intro split_ws_interior_nonempty) simp_all
    qed
  qed
  from trailing_blank_only [OF this] lb show ?thesis
    by (simp add: ws_words_def)
next
  case True
  then have lb: "leading_blank s = 1"
    by (simp add: leading_blank_def hd_split_ws_empty)
  obtain xs where xs: "split_ws s = [] # xs"
    using True split_ws_nonempty [of s] by (cases "split_ws s") auto
  have "\<forall>j. Suc j < length xs \<longrightarrow> xs ! j \<noteq> []"
  proof (intro allI impI)
    fix j assume "Suc j < length xs"
    then have "split_ws s ! Suc j \<noteq> []"
      by (intro split_ws_interior_nonempty) (simp_all add: xs)
    then show "xs ! j \<noteq> []" by (simp add: xs)
  qed
  from trailing_blank_only [OF this] obtain post where
    "xs = filter (\<lambda>w. w \<noteq> []) xs @ post" "post = [] \<or> post = [[]]" by blast
  then have "split_ws s = replicate 1 [] @ ws_words s @ post \<and> (post = [] \<or> post = [[]])"
    using xs by (simp add: ws_words_def)
  with lb show ?thesis by metis
qed

lemma filter_window_plain:
  assumes "[] \<notin> set W" "post = [] \<or> post = [[]]"
  shows "filter (\<lambda>w. w \<noteq> []) (take m (drop i (W @ post))) = take m (drop i W)"
proof -
  have a: "filter (\<lambda>w. w \<noteq> []) (take m (drop i W)) = take m (drop i W)"
    using assms(1) by (auto simp: filter_id_conv dest: in_set_takeD in_set_dropD)
  have "\<forall>x \<in> set (take (m - (length W - i)) (drop (i - length W) post)). x = []"
    using assms(2) by (auto dest!: in_set_takeD in_set_dropD)
  then have b: "filter (\<lambda>w. w \<noteq> []) (take (m - (length W - i)) (drop (i - length W) post)) = []"
    by (simp add: filter_empty_conv)
  show ?thesis by (simp add: a b)
qed

lemma filter_window:
  assumes "[] \<notin> set W" "post = [] \<or> post = [[]]" "lead \<le> 1"
  shows "filter (\<lambda>w. w \<noteq> []) (take m (drop i (replicate lead [] @ W @ post))) =
           take (m - (lead - i)) (drop (i - lead) W)"
proof (cases "lead = 0")
  case True
  with filter_window_plain [OF assms(1,2)] show ?thesis by simp
next
  case False
  with assms(3) have lead: "lead = 1" by simp
  show ?thesis
  proof (cases i)
    case 0
    show ?thesis
    proof (cases m)
      case 0
      then show ?thesis by simp
    next
      case (Suc m')
      with 0 lead filter_window_plain [OF assms(1,2), of m' 0] show ?thesis by simp
    qed
  next
    case (Suc i')
    with lead filter_window_plain [OF assms(1,2), of m i'] show ?thesis by simp
  qed
qed

lemma createChunksFromSection_nth:
  assumes "k < length (fst (createChunksFromSection gen n sec))"
  shows "450 * k < length (split_ws (content_s sec)) \<and>
         content (fst (createChunksFromSection gen n sec) ! k) =
           trim (join '' '' (take 500 (drop (450 * k) (split_ws (content_s sec)))))"
proof -
  let ?ws = "split_ws (content_s sec)"
  have ne: "\<forall>j. 0 + Suc j * (CHUNK_SIZE - CHUNK_OVERLAP) < length ?ws \<longrightarrow>
      trim (join '' '' (take CHUNK_SIZE (drop (0 + j * (CHUNK_SIZE - CHUNK_OVERLAP)) ?ws))) \<noteq> []"
    using split_ws_window_nonempty by simp
  from chunk_loop_nth [OF ne, of k gen sec n] assms show ?thesis
    by (simp add: createChunksFromSection_def CHUNK_SIZE_def CHUNK_OVERLAP_def mult.commute)
qed

text \<open>The words of the \<open>k\<close>-th chunk, as a slice of the words of the section.\<close>

lemma chunk_words:
  assumes "k < length (fst (createChunksFromSection gen n sec))"
  shows "ws_words (content (fst (createChunksFromSection gen n sec) ! k)) =
           filter (\<lambda>w. w \<noteq> []) (take 500 (drop (450 * k) (split_ws (content_s sec))))"
    and "ws_words (content (fst (createChunksFromSection gen n sec) ! k)) =
           take (500 - (leading_blank (content_s sec) - 450 * k))
             (drop (450 * k - leading_blank (content_s sec)) (ws_words (content_s sec)))"
proof -
  let ?c = "content_s sec"
  show w: "ws_words (content (fst (createChunksFromSection gen n sec) ! k)) =
           filter (\<lambda>w. w \<noteq> []) (take 500 (drop (450 * k) (split_ws ?c)))"
    using createChunksFromSection_nth [OF assms] by (simp add: ws_words_window)
  obtain post where st: "split_ws ?c = replicate (leading_blank ?c) [] @ ws_words ?c @ post"
    and post: "post = [] \<or> post = [[]]"
    using split_ws_structure by blast
  have "[] \<notin> set (ws_words ?c)" by (simp add: ws_words_def)
  moreover have "leading_blank ?c \<le> 1" by (simp add: leading_blank_def)
  ultimately have "filter (\<lambda>w. w \<noteq> []) (take 500 (drop (450 * k)
        (replicate (leading_blank ?c) [] @ ws_words ?c @ post))) =
      take (500 - (leading_blank ?c - 450 * k)) (drop (450 * k - leading_blank ?c) (ws_words ?c))"
    using post by (intro filter_window) simp_all
  with w st show "ws_words (content (fst (createChunksFromSection gen n sec) ! k)) =
           take (500 - (leading_blank ?c - 450 * k)) (drop (450 * k - leading_blank ?c) (ws_words ?c))"
    by simp
qed

lemma overlap_words:
  assumes "Suc (Suc k) < length (fst (createChunksFromSection gen n sec))"
  shows "length (take 500 (drop (450 * k) (split_ws (content_s sec)))) = 500"
    and "length (drop 450 (take 500 (drop (450 * k) (split_ws (content_s sec))))) = 50"
    and "drop 450 (take 500 (drop (450 * k) (split_ws (content_s sec)))) =
           take 50 (take 500 (drop (450 * Suc k) (split_ws (content_s sec))))"
    and "[] \<notin> set (drop 450 (take 500 (drop (450 * k) (split_ws (content_s sec)))))"
    and "suffix (drop 450 (take 500 (drop (450 * k) (split_ws (content_s sec)))))
           (ws_words (content (fst (createChunksFromSection gen n sec) ! k)))"
    and "prefix (drop 450 (take 500 (drop (450 * k) (split_ws (content_s sec)))))
           (ws_words (content (fst (createChunksFromSection gen n sec) ! Suc k)))"
proof -
  let ?ws = "split_ws (content_s sec)"
  let ?cs = "fst (createChunksFromSection gen n sec)"
  let ?w = "take 500 (drop (450 * k) ?ws)"
  let ?w' = "take 500 (drop (450 * Suc k) ?ws)"
  let ?ov = "drop 450 ?w"
  from createChunksFromSection_nth [OF assms] have "450 * Suc (Suc k) < length ?ws" by simp
  then have len: "450 * k + 900 < length ?ws" by simp
  then show a: "length ?w = 500" by simp
  show b: "length ?ov = 50" using len by simp
  have "?ov = take 50 (drop 450 (drop (450 * k) ?ws))" by (simp add: drop_take)
  also have "\<dots> = take 50 ?w'" by (simp add: add.commute)
  finally show c: "?ov = take 50 ?w'" .
  have ov: "?ov = take 50 (drop (450 * k + 450) ?ws)"
    by (simp add: drop_take add.commute)
  show d: "[] \<notin> set ?ov"
  proof
    assume "[] \<in> set ?ov"
    then obtain j where j: "j < 50" "take 50 (drop (450 * k + 450) ?ws) ! j = []"
      unfolding ov using len by (auto simp: in_set_conv_nth)
    then have "?ws ! (450 * k + 450 + j) = []" using len by simp
    moreover have "?ws ! (450 * k + 450 + j) \<noteq> []"
      using j(1) len by (intro split_ws_interior_nonempty) simp_all
    ultimately show False by simp
  qed
  then have f: "filter (\<lambda>w. w \<noteq> []) ?ov = ?ov" by (auto simp: filter_id_conv)
  have k0: "k < length ?cs" and k1: "Suc k < length ?cs" using assms by simp_all
  have "filter (\<lambda>w. w \<noteq> []) ?w =
        filter (\<lambda>w. w \<noteq> []) (take 450 ?w) @ filter (\<lambda>w. w \<noteq> []) ?ov"
    by (metis append_take_drop_id filter_append)
  with f chunk_words(1) [OF k0]
  show "suffix ?ov (ws_words (content (?cs ! k)))"
    by (simp only: suffix_def) blast
  have "filter (\<lambda>w. w \<noteq> []) ?w' =
        filter (\<lambda>w. w \<noteq> []) (take 50 ?w') @ filter (\<lambda>w. w \<noteq> []) (drop 50 ?w')"
    by (metis append_take_drop_id filter_append)
  with f c chunk_words(1) [OF k1]
  show "prefix ?ov (ws_words (content (?cs ! Suc k)))"
    by (simp only: prefix_def) metis
qed

text \<open>
  C5 (as the code has it). The window slides over the pieces of
  \<open>content.split(/\s+/)\<close>: the \<open>k\<close>-th emitted chunk is the text of the at most 500
  pieces from piece \<open>450 * k\<close> on, and its words are the non-empty pieces among them.
  A piece is a word, except that the first piece is empty when the content starts with
  whitespace (and the last when it ends with whitespace). So in words of the section the
  \<open>k\<close>-th chunk is the window of 500 words from word \<open>450 * k\<close> when the content does
  not start with whitespace; when it does, the first chunk has at most 499 words and each
  later window starts at word \<open>450 * k - 1\<close>. In both cases two consecutive chunks of
  which the second is not the last chunk of the section overlap by exactly 50 words:
  the last 50 pieces of the first window are words, they end the first chunk and begin
  the next.
\<close>

theorem C5_chunk_windows:
  "(\<forall>k. k < length (fst (createChunksFromSection gen n sec)) \<longrightarrow>
      450 * k < length (split_ws (content_s sec)) \<and>
      content (fst (createChunksFromSection gen n sec) ! k) =
        trim (join '' '' (take 500 (drop (450 * k) (split_ws (content_s sec))))) \<and>
      ws_words (content (fst (createChunksFromSection gen n sec) ! k)) =
        filter (\<lambda>w. w \<noteq> []) (take 500 (drop (450 * k) (split_ws (content_s sec)))) \<and>
      ws_words (content (fst (createChunksFromSection gen n sec) ! k)) =
        take (500 - (leading_blank (content_s sec) - 450 * k))
          (drop (450 * k - leading_blank (content_s sec)) (ws_words (content_s sec))) \<and>
      (leading_blank (content_s sec) = 0 \<longrightarrow>
         ws_words (content (fst (createChunksFromSection gen n sec) ! k)) =
           take 500 (drop (450 * k) (ws_words (content_s sec))))) \<and>
   (\<forall>k. Suc (Suc k) < length (fst (createChunksFromSection gen n sec)) \<longrightarrow>
      length (take 500 (drop (450 * k) (split_ws (content_s sec)))) = 500 \<and>
      length (drop 450 (take 500 (drop (450 * k) (split_ws (content_s sec))))) = 50 \<and>
      drop 450 (take 500 (drop (450 * k) (split_ws (content_s sec)))) =
        take 50 (take 500 (drop (450 * Suc k) (split_ws (content_s sec)))) \<and>
      [] \<notin> set (drop 450 (take 500 (drop (450 * k) (split_ws (content_s sec))))) \<and>
      suffix (drop 450 (take 500 (drop (450 * k) (split_ws (content_s sec)))))
        (ws_words (content (fst (createChunksFromSection gen n sec) ! k))) \<and>
      prefix (drop 450 (take 500 (drop (450 * k) (split_ws (content_s sec)))))
        (ws_words (content (fst (createChunksFromSection gen n sec) ! Suc k))))"
proof (intro conjI allI impI)
  fix k assume k: "k < length (fst (createChunksFromSection gen n sec))"
  from createChunksFromSection_nth [OF k]
  show "450 * k < length (split_ws (content_s sec))"
    and "content (fst (createChunksFromSection gen n sec) ! k) =
        trim (join '' '' (take 500 (drop (450 * k) (split_ws (content_s sec)))))"
    by simp_all
  from chunk_words [OF k]
  show "ws_words (content (fst (createChunksFromSection gen n sec) ! k)) =
        filter (\<lambda>w. w \<noteq> []) (take 500 (drop (450 * k) (split_ws (content_s sec))))"
    and w: "ws_words (content (fst (createChunksFromSection gen n sec) ! k)) =
        take (500 - (leading_blank (content_s sec) - 450 * k))
          (drop (450 * k - leading_blank (content_s sec)) (ws_words (content_s sec)))"
    by simp_all
  assume "leading_blank (content_s sec) = 0"
  with w show "ws_words (content (fst (createChunksFromSection gen n sec) ! k)) =
           take 500 (drop (450 * k) (ws_words (content_s sec)))"
    by simp
next
  fix k assume k: "Suc (Suc k) < length (fst (createChunksFromSection gen n sec))"
  from overlap_words [OF k]
  show "length (take 500 (drop (450 * k) (split_ws (content_s sec)))) = 500"
    and "length (drop 450 (take 500 (drop (450 * k) (split_ws (content_s sec))))) = 50"
    and "drop 450 (take 500 (drop (450 * k) (split_ws (content_s sec)))) =
        take 50 (take 500 (drop (450 * Suc k) (split_ws (content_s sec))))"
    and "[] \<notin> set (drop 450 (take 500 (drop (450 * k) (split_ws (content_s sec)))))"
    and "suffix (drop 450 (take 500 (drop (450 * k) (split_ws (content_s sec)))))
        (ws_words (content (fst (createChunksFromSection gen n sec) ! k)))"
    and "prefix (drop 450 (take 500 (drop (450 * k) (split_ws (content_s sec)))))
        (ws_words (content (fst (createChunksFromSection gen n sec) ! Suc k)))"
    by blast+
qed

lemma leading_blank_a_space: "0 < m \<Longrightarrow> leading_blank (concat (replicate m ''a '')) = 0"
  by (cases m) (simp_all add: leading_blank_def is_space_def)

lemma long_section_no_leading_blank: "leading_blank (content_s long_section) = 0"
  by (simp add: long_section_def leading_blank_a_space)

theorem C5_chunk_windows_witness:
  "Suc (Suc 0) < length (fst (createChunksFromSection uuid_x 0 long_section)) \<and>
   leading_blank (content_s long_section) = 0 \<and>
   content (fst (createChunksFromSection uuid_x 0 long_section) ! 0) =
     trim (join '' '' (take 500 (drop (450 * 0) (split_ws (content_s long_section))))) \<and>
   ws_words (content (fst (createChunksFromSection uuid_x 0 long_section) ! 0)) =
     take 500 (drop (450 * 0) (ws_words (content_s long_section))) \<and>
   length (take 500 (drop (450 * 0) (split_ws (content_s long_section)))) = 500 \<and>
   length (drop 450 (take 500 (drop (450 * 0) (split_ws (content_s long_section))))) = 50 \<and>
   drop 450 (take 500 (drop (450 * 0) (split_ws (content_s long_section)))) =
     take 50 (take 500 (drop (450 * Suc 0) (split_ws (content_s long_section)))) \<and>
   suffix (drop 450 (take 500 (drop (450 * 0) (split_ws (content_s long_section)))))
     (ws_words (content (fst (createChunksFromSection uuid_x 0 long_section) ! 0))) \<and>
   prefix (drop 450 (take 500 (drop (450 * 0) (split_ws (content_s long_section)))))
     (ws_words (content (fst (createChunksFromSection uuid_x 0 long_section) ! Suc 0)))"
proof -
  have "450 * Suc 2 < length (split_ws (content_s long_section))"
    by (simp add: long_section_def split_ws_a_space)
  then have "2 < length (fst (createChunksFromSection uuid_x 0 long_section))"
    by (rule createChunksFromSection_emits)
  then have h: "Suc (Suc 0) < length (fst (createChunksFromSection uuid_x 0 long_section))"
    and h0: "0 < length (fst (createChunksFromSection uuid_x 0 long_section))"
    by linarith+
  from C5_chunk_windows [of uuid_x 0 long_section, THEN conjunct1, rule_format, OF h0]
    C5_chunk_windows [of uuid_x 0 long_section, THEN conjunct2, rule_format, OF h]
    h long_section_no_leading_blank
  show ?thesis by blast
qed

subsection \<open>A section that starts with a blank line\<close>

lemma ws_words_spaced_words:
  "\<forall>w \<in> set ws. w \<noteq> [] \<and> (\<forall>c \<in> set w. \<not> is_space c) \<Longrightarrow>
   ws_words (concat (map (\<lambda>w. w @ '' '') ws)) = ws"
proof (induction ws)
  case Nil
  then show ?case by (simp add: ws_words_def)
next
  case (Cons w ws)
  have sp: "is_space CHR '' ''" by (simp add: is_space_def)
  from Cons.prems have "ws_words w = [w]" by (simp add: ws_words_word)
  with Cons ws_words_append_space [OF sp, of w "concat (map (\<lambda>w. w @ '' '') ws)"]
  show ?case by simp
qed

lemma lead_section_words:
  "ws_words (content_s lead_section) = replicate 449 ''a'' @ [''b''] @ replicate 950 ''a''"
proof -
  let ?W = "replicate 449 ''a'' @ [''b''] @ replicate 950 ''a''"
  have "\<forall>w \<in> set ?W. w \<noteq> [] \<and> (\<forall>c \<in> set w. \<not> is_space c)"
    by (auto simp: is_space_def)
  then have "ws_words (concat (map (\<lambda>w. w @ '' '') ?W)) = ?W"
    by (rule ws_words_spaced_words)
  moreover have "is_space (CHR 0x0A)" by (simp add: is_space_def)
  ultimately show ?thesis
    using ws_words_append_space [of "CHR 0x0A" "[]" "concat (map (\<lambda>w. w @ '' '') ?W)"]
    by (simp add: lead_section_def ws_words_def)
qed

lemma lead_section_leading_blank: "leading_blank (content_s lead_section) = 1"
  by (simp add: lead_section_def leading_blank_def is_space_def)

lemma lead_section_chunks: "2 < length (fst (createChunksFromSection uuid_x 0 lead_section))"
proof -
  obtain post where
    "split_ws (content_s lead_section) =
       replicate (leading_blank (content_s lead_section)) [] @
       ws_words (content_s lead_section) @ post"
    using split_ws_structure by blast
  then have "length (split_ws (content_s lead_section)) =
      1 + 1400 + length post"
    by (simp add: lead_section_leading_blank lead_section_words)
  then have "450 * Suc 2 < length (split_ws (content_s lead_section))" by simp
  then show ?thesis by (rule createChunksFromSection_emits)
qed

theorem C5_leading_blank_counterexample:
  "is_space (hd (content_s lead_section)) \<and>
   length (ws_words (content_s lead_section)) = 1400 \<and>
   ws_words (content_s lead_section) ! 449 = ''b'' \<and>
   ws_words (content_s lead_section) ! 450 = ''a'' \<and>
   2 < length (fst (createChunksFromSection uuid_x 0 lead_section)) \<and>
   length (ws_words (content (fst (createChunksFromSection uuid_x 0 lead_section) ! 0))) = 499 \<and>
   hd (ws_words (content (fst (createChunksFromSection uuid_x 0 lead_section) ! 1))) = ''b''"
proof -
  have k0: "0 < length (fst (createChunksFromSection uuid_x 0 lead_section))"
    and k1: "1 < length (fst (createChunksFromSection uuid_x 0 lead_section))"
    using lead_section_chunks by linarith+
  have a: "is_space (hd (content_s lead_section))"
    by (simp add: lead_section_def is_space_def)
  have b: "length (ws_words (content_s lead_section)) = 1400"
    by (simp add: lead_section_words)
  have c: "ws_words (content_s lead_section) ! 449 = ''b''"
    by (simp add: lead_section_words nth_append)
  have d: "ws_words (content_s lead_section) ! 450 = ''a''"
    by (simp add: lead_section_words nth_append)
  have e: "length (ws_words (content (fst (createChunksFromSection uuid_x 0 lead_section) ! 0))) = 499"
    using chunk_words(2) [OF k0] by (simp add: lead_section_leading_blank b)
  have "ws_words (content (fst (createChunksFromSection uuid_x 0 lead_section) ! 1)) =
      take 500 (drop 449 (ws_words (content_s lead_section)))"
    using chunk_words(2) [OF k1] by (simp add: lead_section_leading_blank)
  then have f: "hd (ws_words (content (fst (createChunksFromSection uuid_x 0 lead_section) ! 1))) = ''b''"
    by (simp add: lead_section_words)
  from a b c d e f lead_section_chunks show ?thesis by blast
qed

end
